theory Spec2Isabelle
  imports Complex_Main "HOL-Library.Word" "HOL-Library.Sublist"
begin

section \<open>Numbers of the engine\<close>

text \<open>
  The engine (\<^verbatim>\<open>cpp_core/src/engine.cpp\<close>) computes with C++ \<^verbatim>\<open>double\<close> and
  \<^verbatim>\<open>size_t\<close>.

  A \<^verbatim>\<open>double\<close> is modelled as a finite value, one of the two infinities, or NaN.
  Finite values are exact rationals: rounding, overflow of a finite result to an
  infinity, and the sign of zero are not modelled. The special values are kept
  because the guards of the source are comparisons, and every comparison with NaN is
  false.

  \<^verbatim>\<open>size_t\<close> is a 64-bit unsigned word; \<open>+\<close> wraps around as in C++.
\<close>

datatype double = Fin rat | PInf | NInf | NaN

type_synonym size_t = "64 word"

text \<open>\<^verbatim>\<open>a < b\<close> on doubles.\<close>

fun dlt :: "double \<Rightarrow> double \<Rightarrow> bool" where
  "dlt (Fin x) (Fin y) = (x < y)"
| "dlt (Fin x) PInf = True"
| "dlt NInf (Fin y) = True"
| "dlt NInf PInf = True"
| "dlt _ _ = False"

text \<open>\<^verbatim>\<open>a == b\<close> on doubles: NaN is equal to nothing, itself included.\<close>

fun deq :: "double \<Rightarrow> double \<Rightarrow> bool" where
  "deq (Fin x) (Fin y) = (x = y)"
| "deq PInf PInf = True"
| "deq NInf NInf = True"
| "deq _ _ = False"

text \<open>\<^verbatim>\<open>a <= b\<close> on doubles.\<close>

definition dle :: "double \<Rightarrow> double \<Rightarrow> bool" where
  "dle a b = (dlt a b \<or> deq a b)"

text \<open>\<^verbatim>\<open>a > b\<close> on doubles, the comparison of \<^verbatim>\<open>std::greater<double>\<close>.\<close>

definition dgt :: "double \<Rightarrow> double \<Rightarrow> bool" where
  "dgt a b = dlt b a"

fun dneg :: "double \<Rightarrow> double" where
  "dneg (Fin x) = Fin (- x)"
| "dneg PInf = NInf"
| "dneg NInf = PInf"
| "dneg NaN = NaN"

fun dadd :: "double \<Rightarrow> double \<Rightarrow> double" where
  "dadd (Fin x) (Fin y) = Fin (x + y)"
| "dadd NaN _ = NaN"
| "dadd _ NaN = NaN"
| "dadd PInf NInf = NaN"
| "dadd NInf PInf = NaN"
| "dadd PInf _ = PInf"
| "dadd NInf _ = NInf"
| "dadd (Fin x) PInf = PInf"
| "dadd (Fin x) NInf = NInf"

definition dsub :: "double \<Rightarrow> double \<Rightarrow> double" where
  "dsub a b = dadd a (dneg b)"


text \<open>\<^verbatim>\<open>std::min(a, b)\<close> is \<^verbatim>\<open>(b < a) ? b : a\<close>.\<close>

definition dmin :: "double \<Rightarrow> double \<Rightarrow> double" where
  "dmin a b = (if dlt b a then b else a)"


text \<open>The only exception the engine throws is \<^verbatim>\<open>std::invalid_argument\<close>.\<close>

datatype error = InvalidArgument

section \<open>SMACalculator\<close>

text \<open>
  The fields of the class, without the trailing underscore of the source
  (\<^verbatim>\<open>prices_\<close>, \<^verbatim>\<open>window_size_\<close>, \<^verbatim>\<open>current_size_\<close>, \<^verbatim>\<open>index_\<close>, \<^verbatim>\<open>running_sum_\<close>).
\<close>

record SMACalculator =
  prices :: "double list"
  window_size :: size_t
  current_size :: size_t
  index :: size_t
  running_sum :: double

text \<open>
  The constructor. The member initialisers run first, then the check throws for a zero
  window; otherwise the buffer is resized to \<open>window_size\<close> zeros. A failure of the
  allocation for a window too large for the memory is not modelled.
\<close>

definition new_SMACalculator :: "size_t \<Rightarrow> error + SMACalculator" where
  "new_SMACalculator w =
     (if w = 0 then Inl InvalidArgument
      else Inr \<lparr>prices = replicate (unat w) (Fin 0), window_size = w,
                current_size = 0, index = 0, running_sum = Fin 0\<rparr>)"

text \<open>
  \<^verbatim>\<open>addPrice\<close> returns the outcome of the call together with the state the object is
  left in; an outcome \<open>Inl e\<close> is the exception \<open>e\<close>. The reads and writes of
  \<^verbatim>\<open>prices_[index_]\<close> are in range whenever \<open>index < window_size = length prices\<close>,
  which the constructor establishes and \<^verbatim>\<open>addPrice\<close> keeps (lemma \<open>sma_holds_addPrice\<close>).
\<close>

definition addPrice :: "double \<Rightarrow> SMACalculator \<Rightarrow> (error + unit) \<times> SMACalculator" where
  "addPrice price s =
     (if dlt price (Fin 0) then (Inl InvalidArgument, s)
      else
        let s1 = (if current_size s = window_size s
                  then s\<lparr>running_sum := dsub (running_sum s) (prices s ! unat (index s))\<rparr>
                  else s);
            s2 = s1\<lparr>prices := (prices s1)[unat (index s1) := price]\<rparr>;
            s3 = s2\<lparr>running_sum := dadd (running_sum s2) price\<rparr>;
            s4 = s3\<lparr>index := (index s3 + 1) mod window_size s3\<rparr>;
            s5 = (if current_size s4 < window_size s4
                  then s4\<lparr>current_size := current_size s4 + 1\<rparr>
                  else s4)
        in (Inr (), s5))"



text \<open>\<^verbatim>\<open>SMACalculator::reset\<close>.\<close>

definition sma_reset :: "SMACalculator \<Rightarrow> SMACalculator" where
  "sma_reset s =
     s\<lparr>prices := replicate (length (prices s)) (Fin 0),
       current_size := 0, index := 0, running_sum := Fin 0\<rparr>"


section \<open>OrderBook\<close>

datatype OrderSide = BUY | SELL

text \<open>
  \<^verbatim>\<open>struct Order\<close>; the field \<^verbatim>\<open>id\<close> is named \<open>order_id\<close> here. The timestamp is the
  reading of the system clock when the order is built; the model takes the reading as
  an argument.
\<close>

record Order =
  order_id :: string
  side :: OrderSide
  price :: double
  quantity :: double
  timestamp :: int

text \<open>\<^verbatim>\<open>struct Trade\<close>; its \<^verbatim>\<open>price\<close>, \<^verbatim>\<open>quantity\<close> and \<^verbatim>\<open>timestamp\<close> carry the prefix
  \<open>trade_\<close> to keep them apart from the fields of an order.\<close>

record Trade =
  buy_order_id :: string
  sell_order_id :: string
  trade_price :: double
  trade_quantity :: double
  trade_timestamp :: int

text \<open>
  A \<^verbatim>\<open>std::map<double, std::vector<Order>, Compare>\<close> is the list of its entries in
  iteration order: \<^verbatim>\<open>begin()\<close> is the head, \<^verbatim>\<open>erase(begin())\<close> the tail, \<^verbatim>\<open>empty()\<close>
  the empty list.
\<close>

type_synonym level = "double \<times> Order list"

record OrderBook =
  bids :: "level list"
  asks :: "level list"
  next_order_id :: size_t

text \<open>\<^verbatim>\<open>OrderBook() = default\<close>: both maps empty, \<^verbatim>\<open>next_order_id_ = 1\<close>.\<close>

definition new_OrderBook :: OrderBook where
  "new_OrderBook = \<lparr>bids = [], asks = [], next_order_id = 1\<rparr>"

text \<open>Decimal output of an unsigned integer, as \<^verbatim>\<open>operator<<\<close> writes it.\<close>

definition digit_char :: "nat \<Rightarrow> char" where
  "digit_char d = ''0123456789'' ! d"

fun decimal :: "nat \<Rightarrow> string" where
  "decimal n = (if n < 10 then [digit_char n] else decimal (n div 10) @ [digit_char (n mod 10)])"

declare decimal.simps [simp del]

definition generateOrderId :: "OrderBook \<Rightarrow> string \<times> OrderBook" where
  "generateOrderId b =
     (''ORD'' @ decimal (unat (next_order_id b)), b\<lparr>next_order_id := next_order_id b + 1\<rparr>)"

text \<open>
  \<^verbatim>\<open>m[key].push_back(order)\<close> on a map ordered by \<open>cmp\<close>: the search passes the entries
  whose key is ordered before \<open>key\<close>; at the first other entry, the order is appended
  to that entry when \<open>key\<close> is not ordered before its key (the two keys are
  equivalent), and a new level holding the order alone is inserted in front of it
  otherwise. \<^verbatim>\<open>std::map\<close> requires \<open>cmp\<close> to be a strict weak ordering of the keys
  in use; with a NaN key it is not, and C++ leaves the behaviour undefined.
\<close>

fun push_order :: "(double \<Rightarrow> double \<Rightarrow> bool) \<Rightarrow> double \<Rightarrow> Order \<Rightarrow> level list \<Rightarrow> level list" where
  "push_order cmp key ord [] = [(key, [ord])]"
| "push_order cmp key ord ((k, os) # rest) =
     (if cmp k key then (k, os) # push_order cmp key ord rest
      else if cmp key k then (key, [ord]) # (k, os) # rest
      else (k, os @ [ord]) # rest)"

text \<open>
  \<^verbatim>\<open>addOrder\<close> returns the outcome (the new order's ID, or the exception) and the book
  the call leaves. \<open>now\<close> is the clock reading stored in the order.
\<close>

definition addOrder :: "int \<Rightarrow> OrderSide \<Rightarrow> double \<Rightarrow> double \<Rightarrow> OrderBook \<Rightarrow> (error + string) \<times> OrderBook" where
  "addOrder now sd pr qty b =
     (if dle pr (Fin 0) \<or> dle qty (Fin 0) then (Inl InvalidArgument, b)
      else
        let (oid, b1) = generateOrderId b;
            ord = \<lparr>order_id = oid, side = sd, price = pr, quantity = qty, timestamp = now\<rparr>
        in if sd = BUY
           then (Inr oid, b1\<lparr>bids := push_order dgt pr ord (bids b1)\<rparr>)
           else (Inr oid, b1\<lparr>asks := push_order dlt pr ord (asks b1)\<rparr>))"

text \<open>
  One pass through the body of the \<^verbatim>\<open>while\<close> loop of \<^verbatim>\<open>matchOrders\<close>. \<open>None\<close>: the loop
  is left (a side is empty, or the best bid is below the best ask). Otherwise the book
  after the pass and the trade it appended, if any. \<open>now\<close> is the clock reading of
  the pass.
\<close>

definition match_step :: "int \<Rightarrow> OrderBook \<Rightarrow> (OrderBook \<times> Trade option) option" where
  "match_step now b =
     (case bids b of [] \<Rightarrow> None
      | (best_bid_price, bid_orders) # bids_rest \<Rightarrow>
     (case asks b of [] \<Rightarrow> None
      | (best_ask_price, ask_orders) # asks_rest \<Rightarrow>
        if dlt best_bid_price best_ask_price then None
        else if bid_orders = [] \<or> ask_orders = [] then
          Some (b\<lparr>bids := (if bid_orders = [] then bids_rest else bids b),
                  asks := (if ask_orders = [] then asks_rest else asks b)\<rparr>, None)
        else
          let bid_order = hd bid_orders;
              ask_order = hd ask_orders;
              trade_qty = dmin (quantity bid_order) (quantity ask_order);
              trade = \<lparr>buy_order_id = order_id bid_order,
                       sell_order_id = order_id ask_order,
                       trade_price = best_ask_price,
                       trade_quantity = trade_qty,
                       trade_timestamp = now\<rparr>;
              bid_left = dsub (quantity bid_order) trade_qty;
              ask_left = dsub (quantity ask_order) trade_qty;
              bids' = (if deq bid_left (Fin 0)
                       then (if tl bid_orders = [] then bids_rest
                             else (best_bid_price, tl bid_orders) # bids_rest)
                       else (best_bid_price,
                             bid_order\<lparr>quantity := bid_left\<rparr> # tl bid_orders) # bids_rest);
              asks' = (if deq ask_left (Fin 0)
                       then (if tl ask_orders = [] then asks_rest
                             else (best_ask_price, tl ask_orders) # asks_rest)
                       else (best_ask_price,
                             ask_order\<lparr>quantity := ask_left\<rparr> # tl ask_orders) # asks_rest)
          in Some (b\<lparr>bids := bids', asks := asks'\<rparr>, Some trade)))"

text \<open>
  The loop of \<^verbatim>\<open>matchOrders\<close>, with the trades recorded so far. The result is \<open>None\<close>
  when the loop never ends. \<open>clock k\<close> is the clock reading of the pass that runs
  when \<open>k\<close> trades have been recorded.
\<close>

partial_function (option) match_loop ::
    "(nat \<Rightarrow> int) \<Rightarrow> OrderBook \<Rightarrow> Trade list \<Rightarrow> (Trade list \<times> OrderBook) option" where
  "match_loop clock b trades =
     (case match_step (clock (length trades)) b of
        None \<Rightarrow> Some (trades, b)
      | Some (b', None) \<Rightarrow> match_loop clock b' trades
      | Some (b', Some t) \<Rightarrow> match_loop clock b' (trades @ [t]))"

definition matchOrders :: "(nat \<Rightarrow> int) \<Rightarrow> OrderBook \<Rightarrow> (Trade list \<times> OrderBook) option" where
  "matchOrders clock b = match_loop clock b []"

text \<open>\<^verbatim>\<open>getBids\<close> and \<^verbatim>\<open>getAsks\<close>: the total quantity of each level.\<close>

definition level_depth :: "level \<Rightarrow> double \<times> double" where
  "level_depth l = (fst l, foldl (\<lambda>total ord. dadd total (quantity ord)) (Fin 0) (snd l))"

definition getBids :: "OrderBook \<Rightarrow> (double \<times> double) list" where
  "getBids b = map level_depth (bids b)"

definition getAsks :: "OrderBook \<Rightarrow> (double \<times> double) list" where
  "getAsks b = map level_depth (asks b)"

definition getBestBid :: "OrderBook \<Rightarrow> double" where
  "getBestBid b = (case bids b of [] \<Rightarrow> Fin 0 | l # _ \<Rightarrow> fst l)"

definition getBestAsk :: "OrderBook \<Rightarrow> double" where
  "getBestAsk b = (case asks b of [] \<Rightarrow> Fin 0 | l # _ \<Rightarrow> fst l)"

text \<open>\<^verbatim>\<open>OrderBook::reset\<close>.\<close>

definition book_reset :: "OrderBook \<Rightarrow> OrderBook" where
  "book_reset b = b\<lparr>bids := [], asks := [], next_order_id := 1\<rparr>"

section \<open>Vocabulary of the claims\<close>

subsection \<open>Passes of the matching loop\<close>

fun option_list :: "'a option \<Rightarrow> 'a list" where
  "option_list None = []"
| "option_list (Some x) = [x]"

text \<open>
  \<open>match_run clock b ts n b' ts'\<close>: the loop of \<^verbatim>\<open>matchOrders\<close>, entered with book \<open>b\<close>
  and recorded trades \<open>ts\<close>, is at its head again after \<open>n\<close> passes, with book \<open>b'\<close>
  and recorded trades \<open>ts'\<close>.
\<close>

inductive match_run ::
    "(nat \<Rightarrow> int) \<Rightarrow> OrderBook \<Rightarrow> Trade list \<Rightarrow> nat \<Rightarrow> OrderBook \<Rightarrow> Trade list \<Rightarrow> bool"
  for clock :: "nat \<Rightarrow> int" and b :: OrderBook and ts :: "Trade list" where
  run_start: "match_run clock b ts 0 b ts"
| run_pass: "match_run clock b ts n b1 ts1 \<Longrightarrow>
     match_step (clock (length ts1)) b1 = Some (b2, t) \<Longrightarrow>
     match_run clock b ts (Suc n) b2 (ts1 @ option_list t)"

text \<open>
  \<open>pass_records clock b b1 t\<close>: in a call of \<^verbatim>\<open>matchOrders\<close> on book \<open>b\<close>, a pass that
  starts with book \<open>b1\<close> records the trade \<open>t\<close>.
\<close>

definition pass_records :: "(nat \<Rightarrow> int) \<Rightarrow> OrderBook \<Rightarrow> OrderBook \<Rightarrow> Trade \<Rightarrow> bool" where
  "pass_records clock b b1 t \<longleftrightarrow>
     (\<exists>n ts1 b2. match_run clock b [] n b1 ts1 \<and>
        match_step (clock (length ts1)) b1 = Some (b2, Some t))"

text \<open>The trade a pass records for the front bid \<open>bo\<close> and the front ask \<open>ao\<close>.\<close>

definition make_trade :: "int \<Rightarrow> Order \<Rightarrow> Order \<Rightarrow> double \<Rightarrow> Trade" where
  "make_trade now bo ao pa =
     \<lparr>buy_order_id = order_id bo, sell_order_id = order_id ao, trade_price = pa,
      trade_quantity = dmin (quantity bo) (quantity ao), trade_timestamp = now\<rparr>"

text \<open>
  What a pass leaves of one side whose best level is \<open>(p, ord # os)\<close> after a trade
  of quantity \<open>q\<close>: the front order goes when nothing is left of it, and the level
  with its last order.
\<close>

definition settle :: "double \<Rightarrow> Order \<Rightarrow> Order list \<Rightarrow> level list \<Rightarrow> double \<Rightarrow> level list" where
  "settle p ord os rest q =
     (if deq (dsub (quantity ord) q) (Fin 0)
      then (if os = [] then rest else (p, os) # rest)
      else (p, ord\<lparr>quantity := dsub (quantity ord) q\<rparr> # os) # rest)"

text \<open>Every order of a side rests at the level of its own price.\<close>

definition price_keyed :: "level list \<Rightarrow> bool" where
  "price_keyed ls \<longleftrightarrow> (\<forall>l \<in> set ls. \<forall>ord \<in> set (snd l). price ord = fst l)"

subsection \<open>Example books\<close>

text \<open>
  A bid of 2 at the price 45100 and an ask of 1 at the price 45000, as two calls of
  \<^verbatim>\<open>addOrder\<close> on a new book leave them (lemma \<open>crossed_book_built\<close>); the trade of
  the two, and the book after it.
\<close>

definition crossed_book :: OrderBook where
  "crossed_book =
     \<lparr>bids = [(Fin 45100, [\<lparr>order_id = ''ORD1'', side = BUY, price = Fin 45100,
                             quantity = Fin 2, timestamp = 0\<rparr>])],
      asks = [(Fin 45000, [\<lparr>order_id = ''ORD2'', side = SELL, price = Fin 45000,
                             quantity = Fin 1, timestamp = 0\<rparr>])],
      next_order_id = 3\<rparr>"

definition crossed_book_trade :: Trade where
  "crossed_book_trade =
     \<lparr>buy_order_id = ''ORD1'', sell_order_id = ''ORD2'', trade_price = Fin 45000,
      trade_quantity = Fin 1, trade_timestamp = 0\<rparr>"

definition crossed_book_matched :: OrderBook where
  "crossed_book_matched =
     \<lparr>bids = [(Fin 45100, [\<lparr>order_id = ''ORD1'', side = BUY, price = Fin 45100,
                             quantity = Fin 1, timestamp = 0\<rparr>])],
      asks = [],
      next_order_id = 3\<rparr>"

text \<open>A bid at 45000 below an ask at 45100: nothing to match.\<close>

definition uncrossed_book :: OrderBook where
  "uncrossed_book =
     \<lparr>bids = [(Fin 45000, [\<lparr>order_id = ''ORD1'', side = BUY, price = Fin 45000,
                             quantity = Fin 1, timestamp = 0\<rparr>])],
      asks = [(Fin 45100, [\<lparr>order_id = ''ORD2'', side = SELL, price = Fin 45100,
                             quantity = Fin 1, timestamp = 0\<rparr>])],
      next_order_id = 3\<rparr>"

subsection \<open>The moving average\<close>




subsection \<open>Sequences of calls\<close>

text \<open>
  A driver of one book: the calls it makes and what each returns. A run has no result
  when a call of \<^verbatim>\<open>matchOrders\<close> in it never returns.
\<close>

datatype call = AddOrder int OrderSide double double | MatchOrders "nat \<Rightarrow> int" | Reset

datatype response = Added string | Thrown error | Matched "Trade list" | ResetDone

fun call_book :: "call \<Rightarrow> OrderBook \<Rightarrow> (response \<times> OrderBook) option" where
  "call_book (AddOrder now sd pr qty) b =
     (case addOrder now sd pr qty b of
        (Inl e, b') \<Rightarrow> Some (Thrown e, b')
      | (Inr oid, b') \<Rightarrow> Some (Added oid, b'))"
| "call_book (MatchOrders clock) b =
     (case matchOrders clock b of
        None \<Rightarrow> None
      | Some (ts, b') \<Rightarrow> Some (Matched ts, b'))"
| "call_book Reset b = Some (ResetDone, book_reset b)"

fun run_calls :: "call list \<Rightarrow> OrderBook \<Rightarrow> (response list \<times> OrderBook) option" where
  "run_calls [] b = Some ([], b)"
| "run_calls (c # cs) b =
     (case call_book c b of
        None \<Rightarrow> None
      | Some (r, b') \<Rightarrow>
          (case run_calls cs b' of
             None \<Rightarrow> None
           | Some (rs, b'') \<Rightarrow> Some (r # rs, b'')))"

text \<open>The IDs that the calls of \<^verbatim>\<open>addOrder\<close> returned, in the order of the calls.\<close>

fun added_ids :: "response list \<Rightarrow> string list" where
  "added_ids [] = []"
| "added_ids (Added oid # rs) = oid # added_ids rs"
| "added_ids (_ # rs) = added_ids rs"




text \<open>
  A bid whose quantity is NaN and an ask of 1 at the same price, as the calls
  \<^verbatim>\<open>addOrder(BUY, 100.0, NaN)\<close> and \<^verbatim>\<open>addOrder(SELL, 100.0, 1.0)\<close> on a new book leave
  them, and the book after one pass of the matching loop.
\<close>

definition nan_bid_book :: OrderBook where
  "nan_bid_book =
     \<lparr>bids = [(Fin 100, [\<lparr>order_id = ''ORD1'', side = BUY, price = Fin 100,
                           quantity = NaN, timestamp = 0\<rparr>])],
      asks = [],
      next_order_id = 2\<rparr>"

definition nan_book :: OrderBook where
  "nan_book =
     \<lparr>bids = [(Fin 100, [\<lparr>order_id = ''ORD1'', side = BUY, price = Fin 100,
                           quantity = NaN, timestamp = 0\<rparr>])],
      asks = [(Fin 100, [\<lparr>order_id = ''ORD2'', side = SELL, price = Fin 100,
                           quantity = Fin 1, timestamp = 0\<rparr>])],
      next_order_id = 3\<rparr>"

definition nan_book_stuck :: OrderBook where
  "nan_book_stuck =
     \<lparr>bids = [(Fin 100, [\<lparr>order_id = ''ORD1'', side = BUY, price = Fin 100,
                           quantity = NaN, timestamp = 0\<rparr>])],
      asks = [(Fin 100, [\<lparr>order_id = ''ORD2'', side = SELL, price = Fin 100,
                           quantity = NaN, timestamp = 0\<rparr>])],
      next_order_id = 3\<rparr>"

subsection \<open>Price levels and time order\<close>

text \<open>The orders of one side, level by level from the best, and the orders of a book.\<close>

definition level_orders :: "level list \<Rightarrow> Order list" where
  "level_orders ls = concat (map snd ls)"

definition book_orders :: "OrderBook \<Rightarrow> Order list" where
  "book_orders b = level_orders (bids b) @ level_orders (asks b)"












subsection \<open>Filled quantities\<close>

text \<open>The trades that the calls of \<^verbatim>\<open>matchOrders\<close> returned, in order.\<close>

fun all_trades :: "response list \<Rightarrow> Trade list" where
  "all_trades [] = []"
| "all_trades (Matched ts # rs) = ts @ all_trades rs"
| "all_trades (_ # rs) = all_trades rs"

text \<open>
  The accepted orders of a run, each with the ID it got and the quantity it was
  submitted with, from the calls paired with what they returned.
\<close>

fun issued :: "(call \<times> response) list \<Rightarrow> (string \<times> double) list" where
  "issued [] = []"
| "issued ((AddOrder now sd pr qty, Added oid) # h) = (oid, qty) # issued h"
| "issued (_ # h) = issued h"

text \<open>
  \<open>filled oid ts\<close>: the sum of the execution quantities of the trades of \<open>ts\<close> in which
  the order \<open>oid\<close> takes part, as buyer or as seller.
\<close>

definition involves :: "string \<Rightarrow> Trade \<Rightarrow> bool" where
  "involves oid t \<longleftrightarrow> buy_order_id t = oid \<or> sell_order_id t = oid"

definition filled :: "string \<Rightarrow> Trade list \<Rightarrow> double" where
  "filled oid ts = foldl dadd (Fin 0) (map trade_quantity (filter (involves oid) ts))"

text \<open>
  The account of an order submitted with quantity \<open>q0\<close>. While it rests in the book with
  remaining quantity \<open>r\<close>, the filled quantity \<open>f\<close> is finite; a finite order has a
  positive remainder and \<open>q0 = r + f\<close>; an order submitted with infinity or NaN rests
  with that quantity. Once it has left the book, it was finite and \<open>f = q0\<close>.
\<close>

definition open_acct :: "double \<Rightarrow> double \<Rightarrow> double \<Rightarrow> bool" where
  "open_acct q0 r f \<longleftrightarrow>
     (\<exists>z. f = Fin z \<and> 0 \<le> z \<and>
        (case q0 of
           Fin x \<Rightarrow> (\<exists>y. r = Fin y \<and> 0 < y \<and> x = y + z)
         | PInf \<Rightarrow> r = PInf
         | NaN \<Rightarrow> r = NaN
         | NInf \<Rightarrow> False))"

definition closed_acct :: "double \<Rightarrow> double \<Rightarrow> bool" where
  "closed_acct q0 f \<longleftrightarrow> (\<exists>x. q0 = Fin x \<and> 0 < x \<and> f = Fin x)"

text \<open>
  \<open>accounted iss b ts\<close>: the book \<open>b\<close> and the trades \<open>ts\<close> agree with the accepted orders
  \<open>iss\<close>. The orders of the book have distinct IDs, all issued; the trades are between
  issued orders; every resting order has an open account and every issued order that
  is not in the book a closed one.
\<close>

definition accounted_orders :: "(string \<times> double) list \<Rightarrow> Order list \<Rightarrow> Trade list \<Rightarrow> bool" where
  "accounted_orders iss os ts \<longleftrightarrow>
     distinct (map order_id os) \<and>
     order_id ` set os \<subseteq> fst ` set iss \<and>
     (\<forall>t \<in> set ts. buy_order_id t \<in> fst ` set iss \<and> sell_order_id t \<in> fst ` set iss) \<and>
     (\<forall>ord \<in> set os. \<exists>q0. (order_id ord, q0) \<in> set iss \<and>
          open_acct q0 (quantity ord) (filled (order_id ord) ts)) \<and>
     (\<forall>e \<in> set iss. fst e \<notin> order_id ` set os \<longrightarrow>
          closed_acct (snd e) (filled (fst e) ts))"

definition accounted :: "(string \<times> double) list \<Rightarrow> OrderBook \<Rightarrow> Trade list \<Rightarrow> bool" where
  "accounted iss b ts = accounted_orders iss (book_orders b) ts"

text \<open>
  A book whose two front orders cross with NaN quantities: every pass leaves it as it
  is, so the loop does not end there.
\<close>

definition stuck :: "OrderBook \<Rightarrow> bool" where
  "stuck b \<longleftrightarrow>
     (\<exists>pb bo bos brest pa ao aos arest.
        bids b = (pb, bo # bos) # brest \<and> asks b = (pa, ao # aos) # arest \<and>
        \<not> dlt pb pa \<and> quantity bo = NaN \<and> quantity ao = NaN)"

text \<open>What a trade of quantity \<open>q\<close> leaves of a front order.\<close>

definition left_of :: "Order \<Rightarrow> double \<Rightarrow> Order list" where
  "left_of ord q =
     (if deq (dsub (quantity ord) q) (Fin 0) then []
      else [ord\<lparr>quantity := dsub (quantity ord) q\<rparr>])"




subsection \<open>Levels, quantities and the size of a book\<close>

text \<open>No price level of the book has an empty sequence of orders.\<close>

definition no_empty_level :: "OrderBook \<Rightarrow> bool" where
  "no_empty_level b \<longleftrightarrow>
     list_all (\<lambda>l. snd l \<noteq> []) (bids b) \<and> list_all (\<lambda>l. snd l \<noteq> []) (asks b)"

text \<open>A call that passes no NaN quantity.\<close>

fun quantity_not_nan :: "call \<Rightarrow> bool" where
  "quantity_not_nan (AddOrder now sd pr qty) = (qty \<noteq> NaN)"
| "quantity_not_nan _ = True"

text \<open>The number of orders plus the number of price levels of a book.\<close>

definition work :: "OrderBook \<Rightarrow> nat" where
  "work b = (\<Sum>l \<leftarrow> bids b. Suc (length (snd l))) + (\<Sum>l \<leftarrow> asks b. Suc (length (snd l)))"

text \<open>Every order of the book has a finite quantity.\<close>

definition all_finite :: "OrderBook \<Rightarrow> bool" where
  "all_finite b \<longleftrightarrow> (\<forall>ord \<in> set (book_orders b). \<exists>y. quantity ord = Fin y)"

section \<open>Rejected calls\<close>

text \<open>
  C6. A window size of zero makes the constructor throw \<open>InvalidArgument\<close>; \<^verbatim>\<open>addPrice\<close>
  with a value below zero throws it and leaves the calculator (buffer, count, cursor,
  running sum) as it was; \<^verbatim>\<open>addOrder\<close> with a price or a quantity that is zero or below
  throws it and leaves the book (both maps and the counter of order IDs) as it was.
\<close>

theorem invalid_argument_rejected:
  "new_SMACalculator 0 = Inl InvalidArgument
   \<and> (dlt p (Fin 0) \<longrightarrow> addPrice p s = (Inl InvalidArgument, s))
   \<and> (dle pr (Fin 0) \<or> dle qty (Fin 0) \<longrightarrow> addOrder now sd pr qty b = (Inl InvalidArgument, b))"
  by (simp add: new_SMACalculator_def addPrice_def addOrder_def)

theorem invalid_argument_rejected_witness:
  "new_SMACalculator 0 = Inl InvalidArgument
   \<and> dlt (Fin (-10)) (Fin 0)
   \<and> addPrice (Fin (-10))
        \<lparr>prices = [Fin 100, Fin 102, Fin 0], window_size = 3, current_size = 2, index = 2,
         running_sum = Fin 202\<rparr>
      = (Inl InvalidArgument,
        \<lparr>prices = [Fin 100, Fin 102, Fin 0], window_size = 3, current_size = 2, index = 2,
         running_sum = Fin 202\<rparr>)
   \<and> (dle (Fin 100) (Fin 0) \<or> dle (Fin (-1)) (Fin 0))
   \<and> addOrder 0 BUY (Fin 100) (Fin (-1)) new_OrderBook = (Inl InvalidArgument, new_OrderBook)"
  using invalid_argument_rejected
    [of "Fin (-10)"
        "\<lparr>prices = [Fin 100, Fin 102, Fin 0], window_size = 3, current_size = 2, index = 2,
          running_sum = Fin 202\<rparr>"
        "Fin 100" "Fin (-1)" 0 BUY new_OrderBook]
  by (simp add: dle_def)

section \<open>The matching loop, pass by pass\<close>

lemma match_loop_unfold:
  "match_loop clock b ts =
     (case match_step (clock (length ts)) b of
        None \<Rightarrow> Some (ts, b)
      | Some (b', t) \<Rightarrow> match_loop clock b' (ts @ option_list t))"
  by (subst match_loop.simps) (simp split: option.splits)

text \<open>A result of the loop is reached by passes, and no further pass is possible there.\<close>

lemma match_loop_run_aux:
  assumes "match_loop clock b ts = Some y"
  shows "\<forall>b0 ts0 n. match_run clock b0 ts0 n b ts \<longrightarrow>
           (\<exists>m. match_run clock b0 ts0 m (snd y) (fst y)) \<and>
           match_step (clock (length (fst y))) (snd y) = None"
proof (rule match_loop.raw_induct[OF _ assms])
  fix loop clock b ts y
  assume IH: "\<And>clock b ts y. loop clock b ts = Some y \<Longrightarrow>
        \<forall>b0 ts0 n. match_run clock b0 ts0 n b ts \<longrightarrow>
           (\<exists>m. match_run clock b0 ts0 m (snd y) (fst y)) \<and>
           match_step (clock (length (fst y))) (snd y) = None"
    and eq: "(case match_step (clock (length ts)) b of
        None \<Rightarrow> Some (ts, b)
      | Some (b', None) \<Rightarrow> loop clock b' ts
      | Some (b', Some t) \<Rightarrow> loop clock b' (ts @ [t])) = Some y"
  show "\<forall>b0 ts0 n. match_run clock b0 ts0 n b ts \<longrightarrow>
           (\<exists>m. match_run clock b0 ts0 m (snd y) (fst y)) \<and>
           match_step (clock (length (fst y))) (snd y) = None"
  proof (intro allI impI)
    fix b0 ts0 n
    assume run: "match_run clock b0 ts0 n b ts"
    show "(\<exists>m. match_run clock b0 ts0 m (snd y) (fst y)) \<and>
           match_step (clock (length (fst y))) (snd y) = None"
    proof (cases "match_step (clock (length ts)) b")
      case None
      with eq run show ?thesis by auto
    next
      case (Some r)
      obtain b' t where r: "r = (b', t)" by (cases r)
      have run': "match_run clock b0 ts0 (Suc n) b' (ts @ option_list t)"
        using run Some r by (auto intro: run_pass)
      from eq Some r have "loop clock b' (ts @ option_list t) = Some y"
        by (cases t) auto
      from IH[OF this] run' show ?thesis by blast
    qed
  qed
qed

lemma match_loop_run:
  assumes "match_loop clock b ts = Some (ts', b')"
  shows "\<exists>n. match_run clock b ts n b' ts'" and "match_step (clock (length ts')) b' = None"
  using match_loop_run_aux[OF assms] run_start[of clock b ts] by auto

text \<open>Every trade recorded during a run is the trade of one of its passes.\<close>

lemma match_run_trades:
  "match_run clock b ts n b' ts' \<Longrightarrow>
     \<exists>new. ts' = ts @ new \<and>
       (\<forall>t \<in> set new. \<exists>m b1 ts1 b2. match_run clock b ts m b1 ts1 \<and>
          match_step (clock (length ts1)) b1 = Some (b2, Some t))"
proof (induction rule: match_run.induct)
  case run_start
  show ?case by simp
next
  case (run_pass n b1 ts1 b2 t)
  then obtain new where new: "ts1 = ts @ new"
    and old: "\<forall>t \<in> set new. \<exists>m b1 ts1 b2. match_run clock b ts m b1 ts1 \<and>
          match_step (clock (length ts1)) b1 = Some (b2, Some t)" by blast
  show ?case
  proof (cases t)
    case None
    with new old show ?thesis by simp
  next
    case (Some tr)
    have "\<exists>m b1 ts1 b2. match_run clock b ts m b1 ts1 \<and>
          match_step (clock (length ts1)) b1 = Some (b2, Some tr)"
      using run_pass.hyps(1,2) Some by blast
    with new old Some show ?thesis by auto
  qed
qed

lemma returned_trade_recorded:
  assumes "matchOrders clock b = Some (ts, b')" and "t \<in> set ts"
  shows "\<exists>b1. pass_records clock b b1 t"
proof -
  have "match_loop clock b [] = Some (ts, b')"
    using assms(1) by (simp add: matchOrders_def)
  from match_loop_run(1)[OF this] obtain n where "match_run clock b [] n b' ts" ..
  from match_run_trades[OF this] assms(2) show ?thesis
    unfolding pass_records_def by simp blast
qed

subsection \<open>One pass\<close>

lemma match_step_None:
  "match_step now b = None \<longleftrightarrow> bids b = [] \<or> asks b = [] \<or> dlt (getBestBid b) (getBestAsk b)"
  by (auto simp: match_step_def getBestBid_def getBestAsk_def Let_def split: list.splits)

lemma match_step_trade_eq:
  assumes "bids b = (pb, bo # bos) # brest" "asks b = (pa, ao # aos) # arest"
  shows "match_step now b =
     (if dlt pb pa then None
      else Some (b\<lparr>bids := settle pb bo bos brest (dmin (quantity bo) (quantity ao)),
                   asks := settle pa ao aos arest (dmin (quantity bo) (quantity ao))\<rparr>,
                 Some (make_trade now bo ao pa)))"
  using assms by (simp add: match_step_def Let_def settle_def make_trade_def)

lemma match_step_cleanup_eq:
  assumes "bids b = (pb, bos) # brest" "asks b = (pa, aos) # arest" "bos = [] \<or> aos = []"
  shows "match_step now b =
     (if dlt pb pa then None
      else Some (b\<lparr>bids := (if bos = [] then brest else bids b),
                   asks := (if aos = [] then arest else asks b)\<rparr>, None))"
  using assms by (auto simp add: match_step_def)

lemma match_step_cases [consumes 1, case_names cleanup trade]:
  assumes "match_step now b = Some (b', t)"
  obtains
    (cleanup) pb bos brest pa aos arest where
      "bids b = (pb, bos) # brest" "asks b = (pa, aos) # arest" "\<not> dlt pb pa"
      "bos = [] \<or> aos = []" "t = None"
      "b' = b\<lparr>bids := (if bos = [] then brest else bids b),
               asks := (if aos = [] then arest else asks b)\<rparr>"
  | (trade) pb bo bos brest pa ao aos arest where
      "bids b = (pb, bo # bos) # brest" "asks b = (pa, ao # aos) # arest" "\<not> dlt pb pa"
      "t = Some (make_trade now bo ao pa)"
      "b' = b\<lparr>bids := settle pb bo bos brest (dmin (quantity bo) (quantity ao)),
               asks := settle pa ao aos arest (dmin (quantity bo) (quantity ao))\<rparr>"
proof -
  from assms obtain pb bos brest pa aos arest where
    b: "bids b = (pb, bos) # brest" and a: "asks b = (pa, aos) # arest"
    by (auto simp: match_step_def split: list.splits)
  show thesis
  proof (cases "bos = [] \<or> aos = []")
    case True
    with assms b a cleanup show thesis
      by (simp add: match_step_cleanup_eq[OF b a True] split: if_splits)
  next
    case False
    then obtain bo bos' ao aos' where os: "bos = bo # bos'" "aos = ao # aos'"
      by (auto simp: neq_Nil_conv)
    with assms b a trade show thesis
      by (simp add: match_step_trade_eq split: if_splits)
  qed
qed

lemma match_step_trade:
  assumes "match_step now b = Some (b', Some t)"
  shows "\<exists>pb bo bos brest pa ao aos arest.
           bids b = (pb, bo # bos) # brest \<and> asks b = (pa, ao # aos) # arest \<and>
           \<not> dlt pb pa \<and> t = make_trade now bo ao pa"
  using assms by (cases rule: match_step_cases) auto

lemma price_keyed_settle:
  "price_keyed ((p, ord # os) # rest) \<Longrightarrow> price_keyed (settle p ord os rest q)"
  by (auto simp: price_keyed_def settle_def)

lemma price_keyed_tl: "price_keyed (l # rest) \<Longrightarrow> price_keyed rest"
  by (auto simp: price_keyed_def)

lemma match_step_price_keyed:
  assumes "match_step now b = Some (b', t)" "price_keyed (asks b)"
  shows "price_keyed (asks b')"
  using assms
  by (cases rule: match_step_cases) (auto intro: price_keyed_settle price_keyed_tl)

lemma match_run_price_keyed:
  "match_run clock b ts n b' ts' \<Longrightarrow> price_keyed (asks b) \<Longrightarrow> price_keyed (asks b')"
  by (induction rule: match_run.induct) (auto intro: match_step_price_keyed)

subsection \<open>The example books\<close>

lemma crossed_book_built:
  "snd (addOrder 0 SELL (Fin 45000) (Fin 1) (snd (addOrder 0 BUY (Fin 45100) (Fin 2) new_OrderBook)))
     = crossed_book"
  by (simp add: addOrder_def generateOrderId_def new_OrderBook_def crossed_book_def dle_def
      dgt_def decimal.simps digit_char_def)

lemma crossed_book_pass:
  "match_step now crossed_book =
     Some (crossed_book_matched, Some (crossed_book_trade\<lparr>trade_timestamp := now\<rparr>))"
  by (simp add: match_step_def crossed_book_def crossed_book_matched_def crossed_book_trade_def
      Let_def dmin_def dsub_def)

lemma crossed_book_matchOrders:
  "matchOrders (\<lambda>k. 0) crossed_book = Some ([crossed_book_trade], crossed_book_matched)"
proof -
  have "match_step now crossed_book_matched = None" for now
    by (simp add: match_step_def crossed_book_matched_def)
  then show ?thesis
    by (simp add: matchOrders_def match_loop_unfold crossed_book_pass crossed_book_trade_def)
qed

lemma crossed_book_pass_records:
  "pass_records (\<lambda>k. 0) crossed_book crossed_book crossed_book_trade"
  unfolding pass_records_def
  using run_start[of "\<lambda>k. 0" crossed_book "[]"] crossed_book_pass[of 0]
  by (auto simp: crossed_book_trade_def)

lemma uncrossed_book_best:
  "getBestBid uncrossed_book = Fin 45000" "getBestAsk uncrossed_book = Fin 45100"
  by (simp_all add: getBestBid_def getBestAsk_def uncrossed_book_def)

lemma crossed_book_best:
  "getBestBid crossed_book = Fin 45100" "getBestAsk crossed_book = Fin 45000"
  by (simp_all add: getBestBid_def getBestAsk_def crossed_book_def)

section \<open>Execution price\<close>

text \<open>
  C2. Every trade that \<^verbatim>\<open>matchOrders\<close> returns is recorded by one of its passes, and
  in every pass that records a trade, the seller is the front order of the best ask
  level and the execution price is the price of that level. That is the price field of
  the ask order when the asks of the book rest at the levels of their prices, and it
  is not the best bid price when the two differ.
\<close>

theorem trade_price_is_best_ask:
  "(\<forall>ts b' t. matchOrders clock b = Some (ts, b') \<and> t \<in> set ts \<longrightarrow>
       (\<exists>b1. pass_records clock b b1 t))
   \<and> (\<forall>b1 t. pass_records clock b b1 t \<longrightarrow>
        (\<exists>pa ask_order aos arest.
           asks b1 = (pa, ask_order # aos) # arest \<and>
           sell_order_id t = order_id ask_order \<and>
           trade_price t = pa \<and> getBestAsk b1 = pa \<and>
           (price_keyed (asks b) \<longrightarrow> trade_price t = price ask_order) \<and>
           (getBestBid b1 \<noteq> pa \<longrightarrow> trade_price t \<noteq> getBestBid b1)))"
proof (intro conjI allI impI)
  fix ts b' t
  assume "matchOrders clock b = Some (ts, b') \<and> t \<in> set ts"
  then show "\<exists>b1. pass_records clock b b1 t"
    using returned_trade_recorded by blast
next
  fix b1 t
  assume "pass_records clock b b1 t"
  then obtain n ts1 b2 where run: "match_run clock b [] n b1 ts1"
    and st: "match_step (clock (length ts1)) b1 = Some (b2, Some t)"
    unfolding pass_records_def by blast
  from match_step_trade[OF st] obtain pb bo bos brest pa ao aos arest where
    b: "bids b1 = (pb, bo # bos) # brest" and a: "asks b1 = (pa, ao # aos) # arest"
    and t: "t = make_trade (clock (length ts1)) bo ao pa"
    by blast
  have keyed: "price_keyed (asks b) \<longrightarrow> price ao = pa"
    using match_run_price_keyed[OF run] a by (auto simp: price_keyed_def)
  show "\<exists>pa ask_order aos arest.
           asks b1 = (pa, ask_order # aos) # arest \<and>
           sell_order_id t = order_id ask_order \<and>
           trade_price t = pa \<and> getBestAsk b1 = pa \<and>
           (price_keyed (asks b) \<longrightarrow> trade_price t = price ask_order) \<and>
           (getBestBid b1 \<noteq> pa \<longrightarrow> trade_price t \<noteq> getBestBid b1)"
    using a b t keyed by (auto simp: getBestAsk_def getBestBid_def make_trade_def)
qed

theorem trade_price_is_best_ask_witness:
  "matchOrders (\<lambda>k. 0) crossed_book = Some ([crossed_book_trade], crossed_book_matched)
   \<and> crossed_book_trade \<in> set [crossed_book_trade]
   \<and> pass_records (\<lambda>k. 0) crossed_book crossed_book crossed_book_trade
   \<and> price_keyed (asks crossed_book)
   \<and> getBestBid crossed_book \<noteq> getBestAsk crossed_book
   \<and> trade_price crossed_book_trade = getBestAsk crossed_book
   \<and> trade_price crossed_book_trade \<noteq> getBestBid crossed_book
   \<and> (\<exists>ask_order aos arest.
         asks crossed_book = (Fin 45000, ask_order # aos) # arest \<and>
         sell_order_id crossed_book_trade = order_id ask_order \<and>
         trade_price crossed_book_trade = price ask_order)"
proof -
  have keyed: "price_keyed (asks crossed_book)"
    by (simp add: price_keyed_def crossed_book_def)
  from trade_price_is_best_ask[of "\<lambda>k. 0" crossed_book] crossed_book_pass_records keyed
  obtain pa ask_order aos arest where
    "asks crossed_book = (pa, ask_order # aos) # arest"
    "sell_order_id crossed_book_trade = order_id ask_order"
    "trade_price crossed_book_trade = pa" "getBestAsk crossed_book = pa"
    "trade_price crossed_book_trade = price ask_order"
    by blast
  with keyed crossed_book_matchOrders crossed_book_pass_records crossed_book_best
  show ?thesis by auto
qed

section \<open>No trade below the ask\<close>

text \<open>
  C3. When a side of the book is empty or the best bid is below the best ask,
  \<^verbatim>\<open>matchOrders\<close> returns no trade and the book as it was. Every trade it returns is
  recorded by one of its passes, and a pass that records a trade starts with both
  sides occupied and the best bid not below the best ask.
\<close>

theorem no_trade_below_ask:
  "(bids b = [] \<or> asks b = [] \<or> dlt (getBestBid b) (getBestAsk b) \<longrightarrow>
      matchOrders clock b = Some ([], b))
   \<and> (\<forall>ts b' t. matchOrders clock b = Some (ts, b') \<and> t \<in> set ts \<longrightarrow>
         (\<exists>b1. pass_records clock b b1 t))
   \<and> (\<forall>b1 t. pass_records clock b b1 t \<longrightarrow>
         bids b1 \<noteq> [] \<and> asks b1 \<noteq> [] \<and> \<not> dlt (getBestBid b1) (getBestAsk b1))"
proof (intro conjI allI impI)
  assume "bids b = [] \<or> asks b = [] \<or> dlt (getBestBid b) (getBestAsk b)"
  then have "match_step (clock (length ([]::Trade list))) b = None"
    by (simp only: match_step_None)
  then show "matchOrders clock b = Some ([], b)"
    by (simp add: matchOrders_def match_loop_unfold)
next
  fix ts b' t
  assume "matchOrders clock b = Some (ts, b') \<and> t \<in> set ts"
  then show "\<exists>b1. pass_records clock b b1 t"
    using returned_trade_recorded by blast
next
  fix b1 t
  assume "pass_records clock b b1 t"
  then obtain ts1 :: "Trade list" and b2
    where st: "match_step (clock (length ts1)) b1 = Some (b2, Some t)"
    unfolding pass_records_def by blast
  then have "match_step (clock (length ts1)) b1 \<noteq> None" by simp
  then show "bids b1 \<noteq> []" "asks b1 \<noteq> []" "\<not> dlt (getBestBid b1) (getBestAsk b1)"
    by (simp_all only: match_step_None not_False_eq_True de_Morgan_disj)
qed

theorem no_trade_below_ask_witness:
  "dlt (getBestBid uncrossed_book) (getBestAsk uncrossed_book)
   \<and> matchOrders (\<lambda>k. 0) uncrossed_book = Some ([], uncrossed_book)
   \<and> matchOrders (\<lambda>k. 0) crossed_book = Some ([crossed_book_trade], crossed_book_matched)
   \<and> crossed_book_trade \<in> set [crossed_book_trade]
   \<and> pass_records (\<lambda>k. 0) crossed_book crossed_book crossed_book_trade
   \<and> bids crossed_book \<noteq> [] \<and> asks crossed_book \<noteq> []
   \<and> \<not> dlt (getBestBid crossed_book) (getBestAsk crossed_book)"
proof -
  have below: "dlt (getBestBid uncrossed_book) (getBestAsk uncrossed_book)"
    by (simp add: uncrossed_book_best)
  with no_trade_below_ask[of uncrossed_book "\<lambda>k. 0"]
  have "matchOrders (\<lambda>k. 0) uncrossed_book = Some ([], uncrossed_book)" by blast
  moreover from no_trade_below_ask[of crossed_book "\<lambda>k. 0"] crossed_book_pass_records
  have "bids crossed_book \<noteq> [] \<and> asks crossed_book \<noteq> []
        \<and> \<not> dlt (getBestBid crossed_book) (getBestAsk crossed_book)" by blast
  ultimately show ?thesis
    using below crossed_book_matchOrders crossed_book_pass_records by simp
qed

section \<open>The book after matching\<close>

text \<open>
  C10. When \<^verbatim>\<open>matchOrders\<close> returns, the book is not crossed: the bids are empty, or
  the asks are empty, or the best bid is below the best ask.
\<close>

theorem matchOrders_leaves_uncrossed:
  "matchOrders clock b = Some (ts, b') \<Longrightarrow>
     bids b' = [] \<or> asks b' = [] \<or> dlt (getBestBid b') (getBestAsk b')"
  unfolding matchOrders_def using match_loop_run(2) match_step_None by blast

theorem matchOrders_leaves_uncrossed_witness:
  "matchOrders (\<lambda>k. 0) crossed_book = Some ([crossed_book_trade], crossed_book_matched)
   \<and> (bids crossed_book_matched = [] \<or> asks crossed_book_matched = []
      \<or> dlt (getBestBid crossed_book_matched) (getBestAsk crossed_book_matched))"
  using matchOrders_leaves_uncrossed[OF crossed_book_matchOrders] crossed_book_matchOrders
  by simp

section \<open>The moving average\<close>














section \<open>Order IDs\<close>

lemma digit_char_inj: "d < 10 \<Longrightarrow> e < 10 \<Longrightarrow> digit_char d = digit_char e \<Longrightarrow> d = e"
proof -
  assume "d < 10" "e < 10" "digit_char d = digit_char e"
  moreover have "d < 10 \<longleftrightarrow> d \<in> {0,1,2,3,4,5,6,7,8,9}" by auto
  moreover have "e < 10 \<longleftrightarrow> e \<in> {0,1,2,3,4,5,6,7,8,9}" by auto
  ultimately show "d = e" 
    by (auto simp: digit_char_def)
qed

lemma decimal_nonempty: "decimal n \<noteq> []"
  by (subst decimal.simps) simp

lemma decimal_inj: "decimal n = decimal m \<Longrightarrow> n = m"
proof (induction n arbitrary: m rule: decimal.induct)
  case (1 n)
  show ?case
  proof (cases "n < 10")
    case True
    then have n: "decimal n = [digit_char n]" by (subst decimal.simps) simp
    show ?thesis
    proof (cases "m < 10")
      case m: True
      then have "decimal m = [digit_char m]" by (subst decimal.simps) simp
      with n 1(2) True m show ?thesis by (auto dest: digit_char_inj)
    next
      case False
      then have "decimal m = decimal (m div 10) @ [digit_char (m mod 10)]"
        by (subst decimal.simps) simp
      with n 1(2) decimal_nonempty[of "m div 10"] show ?thesis by simp
    qed
  next
    case False
    then have n: "decimal n = decimal (n div 10) @ [digit_char (n mod 10)]"
      by (subst decimal.simps) simp
    show ?thesis
    proof (cases "m < 10")
      case True
      then have "decimal m = [digit_char m]" by (subst decimal.simps) simp
      with n 1(2) decimal_nonempty[of "n div 10"] show ?thesis by simp
    next
      case m: False
      then have "decimal m = decimal (m div 10) @ [digit_char (m mod 10)]"
        by (subst decimal.simps) simp
      with n 1(2) have eq: "decimal (n div 10) = decimal (m div 10)"
        "digit_char (n mod 10) = digit_char (m mod 10)" by auto
      from 1(1)[OF False eq(1)] have "n div 10 = m div 10" .
      moreover from eq(2) have "n mod 10 = m mod 10"
        by (auto dest!: digit_char_inj[rotated 2])
      ultimately show ?thesis by (metis div_mult_mod_eq)
    qed
  qed
qed

lemma match_step_next_order_id:
  "match_step now b = Some (b', t) \<Longrightarrow> next_order_id b' = next_order_id b"
  by (cases rule: match_step_cases) auto

lemma match_run_next_order_id:
  "match_run clock b ts n b' ts' \<Longrightarrow> next_order_id b' = next_order_id b"
  by (induction rule: match_run.induct) (auto dest: match_step_next_order_id)

lemma matchOrders_next_order_id:
  assumes "matchOrders clock b = Some (ts, b')"
  shows "next_order_id b' = next_order_id b"
proof -
  from assms have "match_loop clock b [] = Some (ts, b')" by (simp add: matchOrders_def)
  from match_loop_run(1)[OF this] show ?thesis by (auto dest: match_run_next_order_id)
qed

lemma addOrder_cases:
  "addOrder now sd pr qty b = (Inl InvalidArgument, b) \<or>
   (\<exists>b'. addOrder now sd pr qty b = (Inr (''ORD'' @ decimal (unat (next_order_id b))), b') \<and>
      next_order_id b' = next_order_id b + 1)"
  by (auto simp: addOrder_def generateOrderId_def Let_def)

lemma run_calls_ids:
  assumes "run_calls cs b0 = Some (rs, b)" "Reset \<notin> set cs"
    "unat (next_order_id b0) + length (added_ids rs) \<le> 2 ^ 64"
  shows "added_ids rs = map (\<lambda>k. ''ORD'' @ decimal k)
           [unat (next_order_id b0) ..< unat (next_order_id b0) + length (added_ids rs)]"
  using assms
proof (induction cs arbitrary: b0 rs)
  case Nil
  then show ?case by simp
next
  case (Cons c cs)
  from Cons.prems(1) obtain r b1 rs' where c: "call_book c b0 = Some (r, b1)"
    and rest: "run_calls cs b1 = Some (rs', b)" and rs: "rs = r # rs'"
    by (auto split: option.splits)
  from Cons.prems(2) have noreset: "Reset \<notin> set cs" "c \<noteq> Reset" by auto
  show ?case
  proof (cases r)
    case (Added oid)
    with c noreset obtain now sd pr qty where cc: "c = AddOrder now sd pr qty"
      by (cases c) (auto split: option.splits prod.splits sum.splits)
    with c Added have add: "addOrder now sd pr qty b0 = (Inr oid, b1)"
      by (auto split: prod.splits sum.splits)
    with addOrder_cases[of now sd pr qty b0] have oid: "oid = ''ORD'' @ decimal (unat (next_order_id b0))"
      and nx: "next_order_id b1 = next_order_id b0 + 1" by auto
    let ?n = "unat (next_order_id b0)"
    have len: "length (added_ids rs) = Suc (length (added_ids rs'))" using rs Added by simp
    show ?thesis
    proof (cases "added_ids rs' = []")
      case True
      with rs Added oid show ?thesis by (simp add: upt_rec)
    next
      case False
      then have "1 \<le> length (added_ids rs')" by (cases "added_ids rs'") auto
      with Cons.prems(3) len have "?n + 1 < 2 ^ 64" by linarith
      then have un: "unat (next_order_id b1) = Suc ?n"
        using nx by (simp add: unat_add_lem[THEN iffD1])
      with Cons.prems(3) len have "unat (next_order_id b1) + length (added_ids rs') \<le> 2 ^ 64"
        by simp
      from Cons.IH[OF rest noreset(1) this] un
      have "added_ids rs' = map (\<lambda>k. ''ORD'' @ decimal k) [Suc ?n ..< Suc ?n + length (added_ids rs')]"
        by simp
      with rs Added oid len show ?thesis by (simp add: upt_rec)
    qed
  next
    case (Thrown e)
    with c noreset obtain now sd pr qty where cc: "c = AddOrder now sd pr qty"
      by (cases c) (auto split: option.splits prod.splits sum.splits)
    with c Thrown addOrder_cases[of now sd pr qty b0] have "b1 = b0"
      by (auto split: prod.splits sum.splits)
    with Cons.IH[OF rest noreset(1)] Cons.prems(3) rs Thrown show ?thesis by simp
  next
    case (Matched ts)
    with c noreset obtain clock where cc: "c = MatchOrders clock"
      by (cases c) (auto split: option.splits prod.splits sum.splits)
    with c Matched have "matchOrders clock b0 = Some (ts, b1)"
      by (auto split: option.splits)
    then have "next_order_id b1 = next_order_id b0" by (rule matchOrders_next_order_id)
    with Cons.IH[OF rest noreset(1)] Cons.prems(3) rs Matched show ?thesis by simp
  next
    case ResetDone
    with c noreset show ?thesis
      by (cases c) (auto split: option.splits prod.splits sum.splits)
  qed
qed






section \<open>Time priority within a price level\<close>













lemma added_ids_append: "added_ids (xs @ ys) = added_ids xs @ added_ids ys"
  by (induction xs rule: added_ids.induct) auto

lemma run_calls_length: "run_calls cs b0 = Some (rs, b) \<Longrightarrow> length rs = length cs"
  by (induction cs arbitrary: b0 rs) (auto split: option.splits)

lemma run_calls_invariant_aux:
  assumes add: "\<And>h b now sd pr qty oid b'. I h b \<Longrightarrow> ok (AddOrder now sd pr qty) \<Longrightarrow>
        addOrder now sd pr qty b = (Inr oid, b') \<Longrightarrow>
        I (h @ [(AddOrder now sd pr qty, Added oid)]) b'"
    and rej: "\<And>h b now sd pr qty e. I h b \<Longrightarrow> I (h @ [(AddOrder now sd pr qty, Thrown e)]) b"
    and mat: "\<And>h b clock ts b'. I h b \<Longrightarrow> matchOrders clock b = Some (ts, b') \<Longrightarrow>
        I (h @ [(MatchOrders clock, Matched ts)]) b'"
  shows "run_calls cs b0 = Some (rs, b) \<Longrightarrow> Reset \<notin> set cs \<Longrightarrow> \<forall>c \<in> set cs. ok c \<Longrightarrow>
         I h b0 \<Longrightarrow> I (h @ zip cs rs) b"
proof (induction cs arbitrary: b0 rs h)
  case Nil
  then show ?case by simp
next
  case (Cons c cs)
  from Cons.prems(1) obtain r b1 rs' where c: "call_book c b0 = Some (r, b1)"
    and rest: "run_calls cs b1 = Some (rs', b)" and rs: "rs = r # rs'"
    by (auto split: option.splits)
  from Cons.prems(2,3) have tl: "Reset \<notin> set cs" "\<forall>c \<in> set cs. ok c" and hd: "c \<noteq> Reset" "ok c"
    by auto
  have "I (h @ [(c, r)]) b1"
  proof (cases c)
    case (AddOrder now sd pr qty)
    show ?thesis
    proof (cases "addOrder now sd pr qty b0")
      case (Pair res b')
      show ?thesis
      proof (cases res)
        case (Inl e)
        with Pair addOrder_cases[of now sd pr qty b0] have "b' = b0" by auto
        with Pair Inl AddOrder c rej[OF Cons.prems(4)] show ?thesis by auto
      next
        case (Inr oid)
        with Pair AddOrder c have "r = Added oid" "b1 = b'" by auto
        with add[OF Cons.prems(4) _ Pair[unfolded Inr]] hd(2) AddOrder show ?thesis by auto
      qed
    qed
  next
    case (MatchOrders clock)
    with c obtain ts where "matchOrders clock b0 = Some (ts, b1)" "r = Matched ts"
      by (auto split: option.splits)
    with mat[OF Cons.prems(4)] MatchOrders show ?thesis by auto
  next
    case Reset
    with hd show ?thesis by simp
  qed
  from Cons.IH[OF rest tl this] rs show ?case by simp
qed

lemma run_calls_invariant:
  assumes "run_calls cs b0 = Some (rs, b)" "Reset \<notin> set cs" "\<forall>c \<in> set cs. ok c" "I [] b0"
    and "\<And>h b now sd pr qty oid b'. I h b \<Longrightarrow> ok (AddOrder now sd pr qty) \<Longrightarrow>
        addOrder now sd pr qty b = (Inr oid, b') \<Longrightarrow>
        I (h @ [(AddOrder now sd pr qty, Added oid)]) b'"
    and "\<And>h b now sd pr qty e. I h b \<Longrightarrow> I (h @ [(AddOrder now sd pr qty, Thrown e)]) b"
    and "\<And>h b clock ts b'. I h b \<Longrightarrow> matchOrders clock b = Some (ts, b') \<Longrightarrow>
        I (h @ [(MatchOrders clock, Matched ts)]) b'"
  shows "I (zip cs rs) b"
  using run_calls_invariant_aux[where I = I and ok = ok and h = "[]", OF assms(5,6,7,1,2,3,4)]
  by simp

lemma match_run_invariant:
  assumes "match_run clock b ts n b' ts'" "J b ts"
    and "\<And>b1 ts1 now b2 t. J b1 ts1 \<Longrightarrow> match_step now b1 = Some (b2, t) \<Longrightarrow>
           J b2 (ts1 @ option_list t)"
  shows "J b' ts'"
  using assms(1)
proof (induction rule: match_run.induct)
  case run_start
  show ?case by (rule assms(2))
next
  case (run_pass n b1 ts1 b2 t)
  then show ?case using assms(3) by blast
qed

lemma matchOrders_invariant:
  assumes "matchOrders clock b = Some (ts, b')" "J b []"
    and "\<And>b1 ts1 now b2 t. J b1 ts1 \<Longrightarrow> match_step now b1 = Some (b2, t) \<Longrightarrow>
           J b2 (ts1 @ option_list t)"
  shows "J b' ts"
proof -
  from assms(1) have "match_loop clock b [] = Some (ts, b')" by (simp add: matchOrders_def)
  from match_loop_run(1)[OF this] obtain n where "match_run clock b [] n b' ts" ..
  from match_run_invariant[where J = J, OF this assms(2,3)] show ?thesis .
qed




lemma level_orders_simps [simp]:
  "level_orders [] = []" "level_orders ((p, os) # rest) = os @ level_orders rest"
  by (simp_all add: level_orders_def)

lemma level_orders_settle:
  "level_orders (settle p ord os rest q) =
     (if deq (dsub (quantity ord) q) (Fin 0) then os @ level_orders rest
      else ord\<lparr>quantity := dsub (quantity ord) q\<rparr> # os @ level_orders rest)"
  by (simp add: settle_def)


lemma run_calls_ids_distinct:
  assumes "next_order_id b0 = 1" "run_calls cs b0 = Some (rs, b)" "Reset \<notin> set cs"
    "length (added_ids rs) < 2 ^ 64"
  shows "distinct (added_ids rs)"
proof -
  have "unat (next_order_id b0) + length (added_ids rs) \<le> 2 ^ 64"
    using assms(1,4) by simp
  from run_calls_ids[OF assms(2,3) this] assms(1)
  have ids: "added_ids rs = map (\<lambda>k. ''ORD'' @ decimal k) [1 ..< Suc (length (added_ids rs))]"
    by simp
  have "inj (\<lambda>k. ''ORD'' @ decimal k)" by (auto intro!: injI dest: decimal_inj)
  then have "distinct (map (\<lambda>k. ''ORD'' @ decimal k) [1 ..< Suc (length (added_ids rs))])"
    by (simp add: distinct_map inj_on_def)
  with ids show ?thesis by simp
qed






section \<open>Filled quantities\<close>

lemma filled_snoc:
  "filled oid (ts @ [t]) =
     (if involves oid t then dadd (filled oid ts) (trade_quantity t) else filled oid ts)"
  by (simp add: filled_def)

lemma filled_none: "\<forall>t \<in> set ts. \<not> involves oid t \<Longrightarrow> filled oid ts = Fin 0"
  by (induction ts rule: rev_induct) (auto simp: filled_snoc, simp add: filled_def)

lemma open_acct_quantity:
  "open_acct q0 r f \<Longrightarrow> (\<exists>y. r = Fin y \<and> 0 < y) \<or> r = PInf \<or> r = NaN"
  by (cases q0) (auto simp: open_acct_def)

lemma open_acct_new:
  "\<not> dle qty (Fin 0) \<Longrightarrow> open_acct qty qty (Fin 0)"
  by (cases qty) (auto simp: open_acct_def dle_def)

text \<open>The trade of two front orders either jams the loop or has a finite positive quantity.\<close>

lemma trade_quantity_cases:
  assumes "(\<exists>y. rb = Fin y \<and> 0 < y) \<or> rb = PInf \<or> rb = NaN"
    and "(\<exists>y. ra = Fin y \<and> 0 < y) \<or> ra = PInf \<or> ra = NaN"
  shows "(dsub rb (dmin rb ra) = NaN \<and> dsub ra (dmin rb ra) = NaN) \<or>
         (\<exists>m. dmin rb ra = Fin m \<and> 0 < m \<and> (\<forall>y. rb = Fin y \<longrightarrow> m \<le> y)
               \<and> (\<forall>y. ra = Fin y \<longrightarrow> m \<le> y))"
  using assms by (cases rb; cases ra) (auto simp: dmin_def dsub_def)

lemma settle_acct:
  assumes "open_acct q0 r f" "0 < m" "\<forall>y. r = Fin y \<longrightarrow> m \<le> y"
  shows "if deq (dsub r (Fin m)) (Fin 0) then closed_acct q0 (dadd f (Fin m))
         else open_acct q0 (dsub r (Fin m)) (dadd f (Fin m))"
  using assms
  by (cases q0; cases r) (auto simp: open_acct_def closed_acct_def dsub_def)




lemma level_orders_settle_left:
  "level_orders (settle p ord os rest q) = left_of ord q @ os @ level_orders rest"
  by (simp add: level_orders_settle left_of_def)

lemma left_of_ids: "order_id ` set (left_of ord q) \<subseteq> {order_id ord}"
  by (auto simp: left_of_def)

lemma left_of_cases:
  "(left_of ord q = [] \<and> deq (dsub (quantity ord) q) (Fin 0)) \<or>
   (left_of ord q = [ord\<lparr>quantity := dsub (quantity ord) q\<rparr>] \<and>
      \<not> deq (dsub (quantity ord) q) (Fin 0))"
  by (simp add: left_of_def)

lemma accounted_orders_trade:
  assumes acc: "accounted_orders iss (bo # X @ ao # Y) ts"
    and iss: "distinct (map fst iss)"
    and m: "0 < m" "\<forall>y. quantity bo = Fin y \<longrightarrow> m \<le> y" "\<forall>y. quantity ao = Fin y \<longrightarrow> m \<le> y"
    and t: "buy_order_id t = order_id bo" "sell_order_id t = order_id ao"
      "trade_quantity t = Fin m"
  shows "accounted_orders iss (left_of bo (Fin m) @ X @ left_of ao (Fin m) @ Y) (ts @ [t])"
proof -
  let ?os = "bo # X @ ao # Y"
  let ?os' = "left_of bo (Fin m) @ X @ left_of ao (Fin m) @ Y"
  from acc have dist: "distinct (map order_id ?os)"
    and sub: "order_id ` set ?os \<subseteq> fst ` set iss"
    and tids: "\<forall>t \<in> set ts. buy_order_id t \<in> fst ` set iss \<and> sell_order_id t \<in> fst ` set iss"
    and opn: "\<And>ord. ord \<in> set ?os \<Longrightarrow> \<exists>q0. (order_id ord, q0) \<in> set iss \<and>
          open_acct q0 (quantity ord) (filled (order_id ord) ts)"
    and cls: "\<And>e. e \<in> set iss \<Longrightarrow> fst e \<notin> order_id ` set ?os \<Longrightarrow>
          closed_acct (snd e) (filled (fst e) ts)"
    unfolding accounted_orders_def by blast+
  from dist have ne: "order_id bo \<noteq> order_id ao"
    and nb: "order_id bo \<notin> order_id ` (set X \<union> set Y)"
    and na: "order_id ao \<notin> order_id ` (set X \<union> set Y)"
    by auto
  have others: "order_id ord \<noteq> order_id bo \<and> order_id ord \<noteq> order_id ao"
    if "ord \<in> set X \<union> set Y" for ord
    using that nb na by (metis imageI)
  have inv_b: "involves (order_id bo) t" and inv_a: "involves (order_id ao) t"
    using t by (simp_all add: involves_def)
  have inv_iff: "involves oid t \<longleftrightarrow> oid = order_id bo \<or> oid = order_id ao" for oid
    using t by (auto simp: involves_def)
  from opn[of bo] obtain q0b where q0b: "(order_id bo, q0b) \<in> set iss"
    "open_acct q0b (quantity bo) (filled (order_id bo) ts)" by auto
  from opn[of ao] obtain q0a where q0a: "(order_id ao, q0a) \<in> set iss"
    "open_acct q0a (quantity ao) (filled (order_id ao) ts)" by auto
  note sb = settle_acct[OF q0b(2) m(1,2)]
  note sa = settle_acct[OF q0a(2) m(1,3)]
  have fb: "filled (order_id bo) (ts @ [t]) = dadd (filled (order_id bo) ts) (Fin m)"
    and fa: "filled (order_id ao) (ts @ [t]) = dadd (filled (order_id ao) ts) (Fin m)"
    using inv_b inv_a t(3) by (simp_all add: filled_snoc)
  have same: "filled oid (ts @ [t]) = filled oid ts"
    if "oid \<noteq> order_id bo" "oid \<noteq> order_id ao" for oid
    using that by (simp add: filled_snoc inv_iff)
  have uniq: "q = q'" if "(oid, q) \<in> set iss" "(oid, q') \<in> set iss" for oid q q'
    using that iss by (meson eq_key_imp_eq_value)
  have ids': "order_id ` set ?os' \<subseteq> order_id ` set ?os"
    using left_of_ids[of bo "Fin m"] left_of_ids[of ao "Fin m"] by auto
  have d1: "distinct (map order_id ?os')"
  proof -
    have "distinct (map order_id (left_of bo (Fin m)))" "distinct (map order_id (left_of ao (Fin m)))"
      by (simp_all add: left_of_def)
    moreover have "order_id ` set (left_of bo (Fin m)) \<subseteq> {order_id bo}"
      "order_id ` set (left_of ao (Fin m)) \<subseteq> {order_id ao}"
      by (rule left_of_ids)+
    ultimately show ?thesis using dist by (auto simp: left_of_def)
  qed
  have d2: "order_id ` set ?os' \<subseteq> fst ` set iss" using ids' sub by blast
  have d3: "\<forall>t' \<in> set (ts @ [t]). buy_order_id t' \<in> fst ` set iss \<and>
      sell_order_id t' \<in> fst ` set iss"
    using tids t(1,2) q0b(1) q0a(1) by force
  have d4: "\<exists>q0. (order_id ord, q0) \<in> set iss \<and>
      open_acct q0 (quantity ord) (filled (order_id ord) (ts @ [t]))"
    if "ord \<in> set ?os'" for ord
  proof -
    from that consider (b) "ord \<in> set (left_of bo (Fin m))" | (a) "ord \<in> set (left_of ao (Fin m))"
      | (o) "ord \<in> set X \<union> set Y" by auto
    then show ?thesis
    proof cases
      case b
      then have nz: "\<not> deq (dsub (quantity bo) (Fin m)) (Fin 0)"
        and ord: "ord = bo\<lparr>quantity := dsub (quantity bo) (Fin m)\<rparr>"
        by (auto simp: left_of_def split: if_splits)
      with sb q0b(1) fb show ?thesis by auto
    next
      case a
      then have nz: "\<not> deq (dsub (quantity ao) (Fin m)) (Fin 0)"
        and ord: "ord = ao\<lparr>quantity := dsub (quantity ao) (Fin m)\<rparr>"
        by (auto simp: left_of_def split: if_splits)
      with sa q0a(1) fa show ?thesis by auto
    next
      case o
      with others[of ord] same[of "order_id ord"] opn[of ord] show ?thesis by auto
    qed
  qed
  have d5: "closed_acct (snd e) (filled (fst e) (ts @ [t]))"
    if e: "e \<in> set iss" and gone: "fst e \<notin> order_id ` set ?os'" for e
  proof -
    consider (b) "fst e = order_id bo" | (a) "fst e = order_id ao"
      | (o) "fst e \<noteq> order_id bo" "fst e \<noteq> order_id ao" by blast
    then show ?thesis
    proof cases
      case b
      with gone have "deq (dsub (quantity bo) (Fin m)) (Fin 0)"
        by (auto simp: left_of_def split: if_splits)
      moreover have "(fst e, snd e) \<in> set iss" using e by simp
      then have "snd e = q0b" using b q0b(1) uniq[of "fst e" "snd e" q0b] by simp
      ultimately show ?thesis using sb fb b by simp
    next
      case a
      with gone have "deq (dsub (quantity ao) (Fin m)) (Fin 0)"
        by (auto simp: left_of_def split: if_splits)
      moreover have "(fst e, snd e) \<in> set iss" using e by simp
      then have "snd e = q0a" using a q0a(1) uniq[of "fst e" "snd e" q0a] by simp
      ultimately show ?thesis using sa fa a by simp
    next
      case o
      with gone have "fst e \<notin> order_id ` set ?os" by auto
      from cls[OF e this] same[OF o] show ?thesis by simp
    qed
  qed
  show ?thesis unfolding accounted_orders_def using d1 d2 d3 d4 d5 by blast
qed

lemma stuck_pass:
  assumes "stuck b1" "match_step now b1 = Some (b2, t')"
  shows "stuck b2"
proof -
  from assms(1) obtain pb bo bos brest pa ao aos arest where
    b: "bids b1 = (pb, bo # bos) # brest" and a: "asks b1 = (pa, ao # aos) # arest"
    and x: "\<not> dlt pb pa" and q: "quantity bo = NaN" "quantity ao = NaN"
    unfolding stuck_def by blast
  from assms(2) b a x q have "b2 = b1\<lparr>bids := (pb, bo\<lparr>quantity := NaN\<rparr> # bos) # brest,
       asks := (pa, ao\<lparr>quantity := NaN\<rparr> # aos) # arest\<rparr>"
    by (simp add: match_step_trade_eq settle_def dmin_def dsub_def)
  with x show ?thesis unfolding stuck_def by simp
qed

lemma stuck_not_left: "stuck b \<Longrightarrow> match_step now b \<noteq> None"
  by (auto simp: stuck_def match_step_trade_eq)

lemma accounted_pass:
  assumes acc: "accounted iss b1 ts" and iss: "distinct (map fst iss)"
    and st: "match_step now b1 = Some (b2, t')"
  shows "accounted iss b2 (ts @ option_list t') \<or> stuck b2"
  using st
proof (cases rule: match_step_cases)
  case (cleanup pb bos brest pa aos arest)
  then have "book_orders b2 = book_orders b1"
    by (auto simp: book_orders_def)
  with acc cleanup(5) show ?thesis by (simp add: accounted_def)
next
  case (trade pb bo bos brest pa ao aos arest)
  let ?q = "dmin (quantity bo) (quantity ao)"
  let ?X = "bos @ level_orders brest" and ?Y = "aos @ level_orders arest"
  have os1: "book_orders b1 = bo # ?X @ ao # ?Y"
    using trade(1,2) by (simp add: book_orders_def)
  have os2: "book_orders b2 = left_of bo ?q @ ?X @ left_of ao ?q @ ?Y"
    using trade(5) by (simp add: book_orders_def level_orders_settle_left)
  from acc os1 have acc1: "accounted_orders iss (bo # ?X @ ao # ?Y) ts"
    by (simp add: accounted_def)
  then have "\<exists>q0. open_acct q0 (quantity bo) (filled (order_id bo) ts)"
    "\<exists>q0. open_acct q0 (quantity ao) (filled (order_id ao) ts)"
    unfolding accounted_orders_def by auto
  then have "(\<exists>y. quantity bo = Fin y \<and> 0 < y) \<or> quantity bo = PInf \<or> quantity bo = NaN"
    "(\<exists>y. quantity ao = Fin y \<and> 0 < y) \<or> quantity ao = PInf \<or> quantity ao = NaN"
    by (auto dest: open_acct_quantity)
  from trade_quantity_cases[OF this]
  show ?thesis
  proof
    assume nan: "dsub (quantity bo) ?q = NaN \<and> dsub (quantity ao) ?q = NaN"
    then have "settle pb bo bos brest ?q = (pb, bo\<lparr>quantity := NaN\<rparr> # bos) # brest"
      "settle pa ao aos arest ?q = (pa, ao\<lparr>quantity := NaN\<rparr> # aos) # arest"
      by (simp_all add: settle_def)
    with trade(3,5) have "stuck b2" unfolding stuck_def by simp
    then show ?thesis ..
  next
    assume "\<exists>m. ?q = Fin m \<and> 0 < m \<and> (\<forall>y. quantity bo = Fin y \<longrightarrow> m \<le> y)
               \<and> (\<forall>y. quantity ao = Fin y \<longrightarrow> m \<le> y)"
    then obtain m where m: "?q = Fin m" "0 < m" "\<forall>y. quantity bo = Fin y \<longrightarrow> m \<le> y"
      "\<forall>y. quantity ao = Fin y \<longrightarrow> m \<le> y" by blast
    have "accounted_orders iss (left_of bo (Fin m) @ ?X @ left_of ao (Fin m) @ ?Y)
            (ts @ [make_trade now bo ao pa])"
      by (rule accounted_orders_trade[OF acc1 iss m(2,3,4)])
         (simp_all add: make_trade_def m(1))
    with os2 m(1) trade(4) have "accounted iss b2 (ts @ option_list t')"
      by (simp add: accounted_def)
    then show ?thesis ..
  qed
qed

lemma matchOrders_accounted:
  assumes acc: "accounted iss b T" and iss: "distinct (map fst iss)"
    and m: "matchOrders clock b = Some (ts, b')"
  shows "accounted iss b' (T @ ts)"
proof -
  from m have loop: "match_loop clock b [] = Some (ts, b')" by (simp add: matchOrders_def)
  from match_loop_run(1)[OF loop] obtain n where run: "match_run clock b [] n b' ts" ..
  have "accounted iss b' (T @ ts) \<or> stuck b'"
  proof (rule match_run_invariant[where J = "\<lambda>b ts. accounted iss b (T @ ts) \<or> stuck b", OF run])
    show "accounted iss b (T @ []) \<or> stuck b" using acc by simp
  next
    fix b1 ts1 now b2 t
    assume "accounted iss b1 (T @ ts1) \<or> stuck b1" "match_step now b1 = Some (b2, t)"
    then show "accounted iss b2 (T @ ts1 @ option_list t) \<or> stuck b2"
      using accounted_pass[OF _ iss, of b1 "T @ ts1" now b2 t] stuck_pass by auto
  qed
  moreover have "\<not> stuck b'"
    using match_loop_run(2)[OF loop] stuck_not_left by blast
  ultimately show ?thesis by simp
qed

lemma level_orders_push_set:
  "set (level_orders (push_order cmp key ord ls)) = insert ord (set (level_orders ls))"
  by (induction ls) (auto split: if_splits)

lemma level_orders_push_distinct:
  "distinct (map order_id (level_orders ls)) \<Longrightarrow>
   order_id ord \<notin> order_id ` set (level_orders ls) \<Longrightarrow>
   distinct (map order_id (level_orders (push_order cmp key ord ls)))"
proof (induction ls)
  case Nil
  then show ?case by simp
next
  case (Cons l ls)
  obtain k os where l: "l = (k, os)" by (cases l)
  from Cons.prems l have IH: "distinct (map order_id (level_orders (push_order cmp key ord ls)))"
    using Cons.IH by auto
  have "order_id ` set (level_orders (push_order cmp key ord ls))
      = insert (order_id ord) (order_id ` set (level_orders ls))"
    by (simp add: level_orders_push_set)
  with Cons.prems l IH show ?case by (auto split: if_splits)
qed

lemma accounted_orders_add:
  assumes acc: "accounted_orders iss os ts" and fresh: "oid \<notin> fst ` set iss"
    and os': "set os' = insert ord (set os)" "distinct (map order_id os')"
    and ord: "order_id ord = oid" "quantity ord = qty" and qty: "\<not> dle qty (Fin 0)"
  shows "accounted_orders (iss @ [(oid, qty)]) os' ts"
proof -
  from acc have sub: "order_id ` set os \<subseteq> fst ` set iss"
    and tids: "\<forall>t \<in> set ts. buy_order_id t \<in> fst ` set iss \<and> sell_order_id t \<in> fst ` set iss"
    and opn: "\<And>ord. ord \<in> set os \<Longrightarrow> \<exists>q0. (order_id ord, q0) \<in> set iss \<and>
          open_acct q0 (quantity ord) (filled (order_id ord) ts)"
    and cls: "\<And>e. e \<in> set iss \<Longrightarrow> fst e \<notin> order_id ` set os \<Longrightarrow>
          closed_acct (snd e) (filled (fst e) ts)"
    unfolding accounted_orders_def by blast+
  from tids fresh have "\<forall>t \<in> set ts. \<not> involves oid t"
    by (auto simp: involves_def)
  then have zero: "filled oid ts = Fin 0" by (rule filled_none)
  have d2: "order_id ` set os' \<subseteq> fst ` set (iss @ [(oid, qty)])"
    using sub os'(1) ord(1) by auto
  have d3: "\<forall>t \<in> set ts. buy_order_id t \<in> fst ` set (iss @ [(oid, qty)]) \<and>
      sell_order_id t \<in> fst ` set (iss @ [(oid, qty)])"
    using tids by auto
  have d4: "\<exists>q0. (order_id o', q0) \<in> set (iss @ [(oid, qty)]) \<and>
      open_acct q0 (quantity o') (filled (order_id o') ts)" if "o' \<in> set os'" for o'
  proof (cases "o' = ord")
    case True
    with ord zero open_acct_new[OF qty] show ?thesis by auto
  next
    case False
    with that os'(1) have "o' \<in> set os" by auto
    from opn[OF this] show ?thesis by auto
  qed
  have d5: "closed_acct (snd e) (filled (fst e) ts)"
    if "e \<in> set (iss @ [(oid, qty)])" "fst e \<notin> order_id ` set os'" for e
  proof -
    from that os'(1) ord(1) have "e \<in> set iss" "fst e \<notin> order_id ` set os" by auto
    then show ?thesis by (rule cls)
  qed
  show ?thesis unfolding accounted_orders_def using os'(2) d2 d3 d4 d5 by blast
qed

lemma addOrder_accounted:
  assumes acc: "accounted iss b T" and add: "addOrder now sd pr qty b = (Inr oid, b')"
    and fresh: "oid \<notin> fst ` set iss"
  shows "accounted (iss @ [(oid, qty)]) b' T"
proof -
  let ?ord = "\<lparr>order_id = oid, side = sd, price = pr, quantity = qty, timestamp = now\<rparr>"
  from add have qty: "\<not> dle qty (Fin 0)"
    and b': "b' = (if sd = BUY
        then b\<lparr>next_order_id := next_order_id b + 1, bids := push_order dgt pr ?ord (bids b)\<rparr>
        else b\<lparr>next_order_id := next_order_id b + 1, asks := push_order dlt pr ?ord (asks b)\<rparr>)"
    by (auto simp: addOrder_def generateOrderId_def Let_def split: if_splits)
  from acc have acc': "accounted_orders iss (book_orders b) T" by (simp add: accounted_def)
  then have dist: "distinct (map order_id (book_orders b))"
    and sub: "order_id ` set (book_orders b) \<subseteq> fst ` set iss"
    unfolding accounted_orders_def by blast+
  from sub fresh have new: "oid \<notin> order_id ` set (book_orders b)" by auto
  have set': "set (book_orders b') = insert ?ord (set (book_orders b))"
    using b' by (auto simp: book_orders_def level_orders_push_set)
  have dist': "distinct (map order_id (book_orders b'))"
  proof (cases "sd = BUY")
    case True
    have "distinct (map order_id (level_orders (push_order dgt pr ?ord (bids b))))"
      using dist new by (intro level_orders_push_distinct) (auto simp: book_orders_def)
    moreover have "order_id ` set (level_orders (push_order dgt pr ?ord (bids b)))
        = insert oid (order_id ` set (level_orders (bids b)))"
      by (simp add: level_orders_push_set)
    ultimately show ?thesis using True b' dist new
      by (auto simp: book_orders_def)
  next
    case False
    have "distinct (map order_id (level_orders (push_order dlt pr ?ord (asks b))))"
      using dist new by (intro level_orders_push_distinct) (auto simp: book_orders_def)
    moreover have "order_id ` set (level_orders (push_order dlt pr ?ord (asks b)))
        = insert oid (order_id ` set (level_orders (asks b)))"
      by (simp add: level_orders_push_set)
    ultimately show ?thesis using False b' dist new
      by (auto simp: book_orders_def)
  qed
  have "accounted_orders (iss @ [(oid, qty)]) (book_orders b') T"
    by (rule accounted_orders_add[OF acc' fresh set' dist' _ _ qty]) simp_all
  then show ?thesis by (simp add: accounted_def)
qed

lemma issued_append: "issued (h @ h') = issued h @ issued h'"
  by (induction h rule: issued.induct) auto

lemma all_trades_append: "all_trades (rs @ rs') = all_trades rs @ all_trades rs'"
  by (induction rs rule: all_trades.induct) auto

lemma run_calls_accounted:
  assumes run: "run_calls cs b0 = Some (rs, b)" and noreset: "Reset \<notin> set cs"
    and empty: "bids b0 = []" "asks b0 = []"
    and dist: "distinct (added_ids rs)"
  shows "accounted (issued (zip cs rs)) b (all_trades rs)"
    and "map fst (issued (zip cs rs)) = added_ids rs"
proof -
  let ?I = "\<lambda>h b. map fst (issued h) = added_ids (map snd h) \<and>
      (distinct (added_ids (map snd h)) \<longrightarrow> accounted (issued h) b (all_trades (map snd h)))"
  have "?I (zip cs rs) b"
  proof (rule run_calls_invariant[where I = ?I and ok = "\<lambda>c. True", OF run noreset])
    show "\<forall>c \<in> set cs. True" by simp
  next
    show "?I [] b0"
      using empty by (simp add: accounted_def accounted_orders_def book_orders_def)
  next
    fix h :: "(call \<times> response) list" and b now sd pr qty oid b'
    assume I: "?I h b" and add: "addOrder now sd pr qty b = (Inr oid, b')"
    show "?I (h @ [(AddOrder now sd pr qty, Added oid)]) b'"
    proof (intro conjI impI)
      show "map fst (issued (h @ [(AddOrder now sd pr qty, Added oid)]))
          = added_ids (map snd (h @ [(AddOrder now sd pr qty, Added oid)]))"
        using I by (simp add: issued_append added_ids_append)
    next
      assume "distinct (added_ids (map snd (h @ [(AddOrder now sd pr qty, Added oid)])))"
      then have d: "distinct (added_ids (map snd h))" and new: "oid \<notin> set (added_ids (map snd h))"
        by (simp_all add: added_ids_append)
      from I d have acc: "accounted (issued h) b (all_trades (map snd h))" by simp
      from I new have "oid \<notin> fst ` set (issued h)" by (metis set_map)
      from addOrder_accounted[OF acc add this]
      show "accounted (issued (h @ [(AddOrder now sd pr qty, Added oid)])) b'
          (all_trades (map snd (h @ [(AddOrder now sd pr qty, Added oid)])))"
        by (simp add: issued_append all_trades_append)
    qed
  next
    fix h :: "(call \<times> response) list" and b now sd pr qty e
    assume "?I h b"
    then show "?I (h @ [(AddOrder now sd pr qty, Thrown e)]) b"
      by (simp add: issued_append added_ids_append all_trades_append)
  next
    fix h :: "(call \<times> response) list" and b clock ts b'
    assume I: "?I h b" and m: "matchOrders clock b = Some (ts, b')"
    show "?I (h @ [(MatchOrders clock, Matched ts)]) b'"
    proof (intro conjI impI)
      show "map fst (issued (h @ [(MatchOrders clock, Matched ts)]))
          = added_ids (map snd (h @ [(MatchOrders clock, Matched ts)]))"
        using I by (simp add: issued_append added_ids_append)
    next
      assume "distinct (added_ids (map snd (h @ [(MatchOrders clock, Matched ts)])))"
      then have d: "distinct (added_ids (map snd h))" by (simp add: added_ids_append)
      with I have acc: "accounted (issued h) b (all_trades (map snd h))"
        and "distinct (map fst (issued h))" by simp_all
      from matchOrders_accounted[OF this m]
      show "accounted (issued (h @ [(MatchOrders clock, Matched ts)])) b'
          (all_trades (map snd (h @ [(MatchOrders clock, Matched ts)])))"
        by (simp add: issued_append all_trades_append)
    qed
  qed
  moreover have "map snd (zip cs rs) = rs"
    using run_calls_length[OF run] by (simp add: map_snd_zip)
  ultimately show "accounted (issued (zip cs rs)) b (all_trades rs)"
    and "map fst (issued (zip cs rs)) = added_ids rs"
    using dist by simp_all
qed





section \<open>Quantities that are not numbers\<close>

text \<open>
  The guard of \<^verbatim>\<open>addOrder\<close> is \<^verbatim>\<open>price <= 0 || quantity <= 0\<close>, with the message
  \<^verbatim>\<open>"Price and quantity must be positive"\<close>. Both comparisons are false for NaN, so an
  order whose quantity is NaN is accepted.

  C5 at the call \<^verbatim>\<open>addOrder(BUY, 100.0, NaN)\<close> on a new book: the call returns an ID
  and leaves in the bids an order whose quantity is not above zero.
\<close>

theorem nan_quantity_accepted:
  "addOrder 0 BUY (Fin 100) NaN new_OrderBook = (Inr ''ORD1'', nan_bid_book)
   \<and> bids nan_bid_book =
       [(Fin 100, [\<lparr>order_id = ''ORD1'', side = BUY, price = Fin 100, quantity = NaN,
                     timestamp = 0\<rparr>])]
   \<and> \<not> dlt (Fin 0) NaN"
  by (simp add: addOrder_def generateOrderId_def new_OrderBook_def nan_bid_book_def dle_def
      decimal.simps digit_char_def)

lemma push_order_nonempty:
  "list_all (\<lambda>l. snd l \<noteq> []) ls \<Longrightarrow> list_all (\<lambda>l. snd l \<noteq> []) (push_order cmp key ord ls)"
  by (induction ls) (auto split: if_splits)

lemma addOrder_no_empty_level:
  assumes "addOrder now sd pr qty b = (r, b')" "no_empty_level b"
  shows "no_empty_level b'"
proof -
  from assms(1) have "b' = b \<or>
      (\<exists>ord. b' = b\<lparr>next_order_id := next_order_id b + 1, bids := push_order dgt pr ord (bids b)\<rparr>) \<or>
      (\<exists>ord. b' = b\<lparr>next_order_id := next_order_id b + 1, asks := push_order dlt pr ord (asks b)\<rparr>)"
    by (auto simp: addOrder_def generateOrderId_def Let_def split: if_splits)
  with assms(2) show ?thesis
    using push_order_nonempty[of "bids b" dgt pr] push_order_nonempty[of "asks b" dlt pr]
    by (auto simp: no_empty_level_def)
qed

lemma settle_nonempty:
  "list_all (\<lambda>l. snd l \<noteq> []) rest \<Longrightarrow> list_all (\<lambda>l. snd l \<noteq> []) (settle p ord os rest q)"
  by (auto simp: settle_def)

lemma match_step_no_empty_level:
  assumes "match_step now b = Some (b', t)" "no_empty_level b"
  shows "no_empty_level b' \<and> t \<noteq> None"
  using assms
proof (cases rule: match_step_cases)
  case (cleanup pb bos brest pa aos arest)
  with assms(2) show ?thesis by (auto simp: no_empty_level_def)
next
  case (trade pb bo bos brest pa ao aos arest)
  with assms(2) show ?thesis
    using settle_nonempty[of brest pb bo bos] settle_nonempty[of arest pa ao aos]
    by (auto simp: no_empty_level_def)
qed

lemma run_calls_no_empty_level:
  assumes "run_calls cs b0 = Some (rs, b)" "Reset \<notin> set cs" "bids b0 = []" "asks b0 = []"
  shows "no_empty_level b"
proof (rule run_calls_invariant[where I = "\<lambda>h b. no_empty_level b" and ok = "\<lambda>c. True",
      OF assms(1,2)])
  show "no_empty_level b0" using assms(3,4) by (simp add: no_empty_level_def)
next
  fix b clock ts b'
  assume ok: "no_empty_level b" and m: "matchOrders clock b = Some (ts, b')"
  show "no_empty_level b'"
    by (rule matchOrders_invariant[where J = "\<lambda>b ts. no_empty_level b", OF m ok])
       (simp add: match_step_no_empty_level)
qed (auto intro: addOrder_no_empty_level)

lemma issued_from_call:
  "e \<in> set (issued h) \<Longrightarrow> \<exists>now sd pr. (AddOrder now sd pr (snd e), Added (fst e)) \<in> set h"
  by (induction h rule: issued.induct) fastforce+

text \<open>
  What holds of C5. In a book built from an empty one, no price level is empty, and
  every pass of \<^verbatim>\<open>matchOrders\<close> on it records a trade: the clean-up of empty levels
  is never run. When no call passed a NaN quantity, every order of the book has a
  quantity above zero.
\<close>

lemma reachable_book_levels_and_quantities:
  assumes "next_order_id b0 = 1" "bids b0 = []" "asks b0 = []"
    and "run_calls cs b0 = Some (rs, b)" "Reset \<notin> set cs"
    and "length (added_ids rs) < 2 ^ 64"
  shows "no_empty_level b"
    and "match_run clock b [] n b1 ts1 \<Longrightarrow> match_step now b1 \<noteq> Some (b2, None)"
    and "\<forall>c \<in> set cs. quantity_not_nan c \<Longrightarrow> \<forall>ord \<in> set (book_orders b). dlt (Fin 0) (quantity ord)"
proof -
  show lev: "no_empty_level b" by (rule run_calls_no_empty_level[OF assms(4,5,2,3)])
  show "match_step now b1 \<noteq> Some (b2, None)" if run: "match_run clock b [] n b1 ts1"
  proof -
    have "no_empty_level b1"
      by (rule match_run_invariant[where J = "\<lambda>b ts. no_empty_level b", OF run lev])
         (simp add: match_step_no_empty_level)
    then show ?thesis using match_step_no_empty_level by blast
  qed
  assume nn: "\<forall>c \<in> set cs. quantity_not_nan c"
  have dist: "distinct (added_ids rs)" by (rule run_calls_ids_distinct[OF assms(1,4,5,6)])
  from run_calls_accounted(1)[OF assms(4,5,2,3) dist]
  have opn: "\<And>ord. ord \<in> set (book_orders b) \<Longrightarrow>
        \<exists>q0. (order_id ord, q0) \<in> set (issued (zip cs rs)) \<and>
           open_acct q0 (quantity ord) (filled (order_id ord) (all_trades rs))"
    unfolding accounted_def accounted_orders_def by blast
  show "\<forall>ord \<in> set (book_orders b). dlt (Fin 0) (quantity ord)"
  proof
    fix ord assume "ord \<in> set (book_orders b)"
    from opn[OF this] obtain q0 where q0: "(order_id ord, q0) \<in> set (issued (zip cs rs))"
      "open_acct q0 (quantity ord) (filled (order_id ord) (all_trades rs))" by blast
    from issued_from_call[OF q0(1)] obtain now sd pr where
      "(AddOrder now sd pr q0, Added (order_id ord)) \<in> set (zip cs rs)" by auto
    then have "AddOrder now sd pr q0 \<in> set cs" by (rule set_zip_leftD)
    with nn have "q0 \<noteq> NaN" by force
    with q0(2) show "dlt (Fin 0) (quantity ord)"
      by (cases q0) (auto simp: open_acct_def)
  qed
qed

text \<open>A book that a pass leaves as it is, whatever the clock, is never left by the loop.\<close>

lemma match_loop_stuck:
  assumes stuck: "\<And>now. \<exists>t. match_step now b = Some (b, t)"
  shows "match_loop clock b ts = None"
proof (rule ccontr)
  assume "match_loop clock b ts \<noteq> None"
  then obtain y where y: "match_loop clock b ts = Some y" by auto
  have "b \<noteq> b"
  proof (rule match_loop.raw_induct[where P = "\<lambda>clock b' ts y. b' \<noteq> b", OF _ y])
    fix loop clock' b' ts' y'
    assume IH: "\<And>clock b' ts y. loop clock b' ts = Some y \<Longrightarrow> b' \<noteq> b"
      and eq: "(case match_step (clock' (length ts')) b' of
          None \<Rightarrow> Some (ts', b')
        | Some (b'', None) \<Rightarrow> loop clock' b'' ts'
        | Some (b'', Some t) \<Rightarrow> loop clock' b'' (ts' @ [t])) = Some y'"
    show "b' \<noteq> b"
    proof
      assume "b' = b"
      with stuck[of "clock' (length ts')"] obtain t
        where "match_step (clock' (length ts')) b' = Some (b, t)" by auto
      with eq have "\<exists>ts''. loop clock' b ts'' = Some y'" by (cases t) auto
      with IH show False by blast
    qed
  qed
  then show False by simp
qed

lemma nan_book_built:
  "addOrder 0 SELL (Fin 100) (Fin 1) nan_bid_book = (Inr ''ORD2'', nan_book)"
  by (simp add: addOrder_def generateOrderId_def nan_bid_book_def nan_book_def dle_def
      decimal.simps digit_char_def)

lemma nan_book_pass:
  "\<exists>t. match_step now nan_book = Some (nan_book_stuck, Some t)"
  by (simp add: match_step_def nan_book_def nan_book_stuck_def Let_def dmin_def dsub_def)

lemma nan_book_stuck_pass:
  "\<exists>t. match_step now nan_book_stuck = Some (nan_book_stuck, t)"
  by (simp add: match_step_def nan_book_stuck_def Let_def dmin_def dsub_def)

text \<open>
  C8 at the book of the calls \<^verbatim>\<open>addOrder(BUY, 100.0, NaN)\<close> and
  \<^verbatim>\<open>addOrder(SELL, 100.0, 1.0)\<close>: the quantity of every trade is \<^verbatim>\<open>std::min(NaN, 1.0)\<close>,
  which is NaN; both orders are left with NaN, which is never equal to zero, so no order
  is ever removed and \<^verbatim>\<open>matchOrders\<close> does not return.
\<close>

theorem matchOrders_nan_never_returns:
  "addOrder 0 BUY (Fin 100) NaN new_OrderBook = (Inr ''ORD1'', nan_bid_book)
   \<and> addOrder 0 SELL (Fin 100) (Fin 1) nan_bid_book = (Inr ''ORD2'', nan_book)
   \<and> matchOrders (\<lambda>k. 0) nan_book = None"
proof -
  have first: "addOrder 0 BUY (Fin 100) NaN new_OrderBook = (Inr ''ORD1'', nan_bid_book)"
    by (simp add: addOrder_def generateOrderId_def new_OrderBook_def nan_bid_book_def dle_def
        decimal.simps digit_char_def)
  obtain t where "match_step ((\<lambda>k. 0) (length ([] :: Trade list))) nan_book
      = Some (nan_book_stuck, Some t)"
    using nan_book_pass by blast
  then have "match_loop (\<lambda>k. 0) nan_book [] = match_loop (\<lambda>k. 0) nan_book_stuck [t]"
    by (subst match_loop_unfold) simp
  also have "\<dots> = None"
    by (rule match_loop_stuck) (rule nan_book_stuck_pass)
  finally show ?thesis using first nan_book_built by (simp add: matchOrders_def)
qed

lemma sum_list_settle:
  "(\<Sum>l \<leftarrow> settle p ord os rest q. Suc (length (snd l)))
     = (if deq (dsub (quantity ord) q) (Fin 0)
        then (if os = [] then 0 else Suc (length os)) else Suc (Suc (length os)))
       + (\<Sum>l \<leftarrow> rest. Suc (length (snd l)))"
  by (simp add: settle_def)

lemma finite_trade_fills_one:
  "deq (dsub (Fin x) (dmin (Fin x) (Fin y))) (Fin 0) \<or> deq (dsub (Fin y) (dmin (Fin x) (Fin y))) (Fin 0)"
  by (simp add: dmin_def dsub_def)

lemma finite_pass:
  assumes "match_step now b1 = Some (b2, t)" "all_finite b1"
  shows "work b2 < work b1 \<and> all_finite b2"
  using assms(1)
proof (cases rule: match_step_cases)
  case (cleanup pb bos brest pa aos arest)
  with assms(2) show ?thesis
    by (auto simp: work_def all_finite_def book_orders_def)
next
  case (trade pb bo bos brest pa ao aos arest)
  let ?q = "dmin (quantity bo) (quantity ao)"
  from assms(2) trade(1,2) obtain x y where q: "quantity bo = Fin x" "quantity ao = Fin y"
    by (auto simp: all_finite_def book_orders_def)
  have one: "deq (dsub (quantity bo) ?q) (Fin 0) \<or> deq (dsub (quantity ao) ?q) (Fin 0)"
    unfolding q by (rule finite_trade_fills_one)
  have "work b1 = Suc (Suc (length bos)) + (\<Sum>l \<leftarrow> brest. Suc (length (snd l)))
      + (Suc (Suc (length aos)) + (\<Sum>l \<leftarrow> arest. Suc (length (snd l))))"
    using trade(1,2) by (simp add: work_def)
  moreover have "work b2 = (\<Sum>l \<leftarrow> settle pb bo bos brest ?q. Suc (length (snd l)))
      + (\<Sum>l \<leftarrow> settle pa ao aos arest ?q. Suc (length (snd l)))"
    using trade(5) by (simp add: work_def)
  ultimately have less: "work b2 < work b1"
    using one by (auto simp: sum_list_settle)
  have fin: "\<exists>z. dsub (quantity bo) ?q = Fin z" "\<exists>z. dsub (quantity ao) ?q = Fin z"
    unfolding q by (simp_all add: dmin_def dsub_def)
  have "book_orders b2 = left_of bo ?q @ (bos @ level_orders brest)
      @ left_of ao ?q @ (aos @ level_orders arest)"
    using trade(5) by (simp add: book_orders_def level_orders_settle_left)
  moreover have "book_orders b1 = bo # (bos @ level_orders brest) @ ao # (aos @ level_orders arest)"
    using trade(1,2) by (simp add: book_orders_def)
  ultimately have "all_finite b2"
    using assms(2) fin by (auto simp: all_finite_def left_of_def split: if_splits)
  with less show ?thesis ..
qed

lemma match_run_prepend:
  assumes "match_run clock b2 ts2 n b' ts'"
  shows "match_step (clock (length ts)) b = Some (b2, t) \<Longrightarrow> ts2 = ts @ option_list t \<Longrightarrow>
         match_run clock b ts (Suc n) b' ts'"
  using assms
proof (induction rule: match_run.induct)
  case run_start
  from match_run.run_pass[OF match_run.run_start[of clock b ts] run_start.prems(1)]
    run_start.prems(2)
  show ?case by simp
next
  case (run_pass n b1 ts1 b3 t3)
  from match_run.run_pass[OF run_pass.IH[OF run_pass.prems] run_pass.hyps(2)]
  show ?case .
qed

text \<open>
  What holds of C8. On a book all of whose quantities are finite, every pass removes a
  level or an order, so \<^verbatim>\<open>matchOrders\<close> returns after at most as many passes as the
  book has orders and levels.
\<close>

lemma match_loop_finite_terminates:
  "all_finite b \<Longrightarrow>
     \<exists>n ts' b'. match_loop clock b ts = Some (ts', b') \<and> match_run clock b ts n b' ts' \<and>
        n \<le> work b"
proof (induction "work b" arbitrary: b ts rule: less_induct)
  case less
  show ?case
  proof (cases "match_step (clock (length ts)) b")
    case None
    then have "match_loop clock b ts = Some (ts, b)" by (simp add: match_loop_unfold)
    with run_start[of clock b ts] show ?thesis by blast
  next
    case (Some r)
    obtain b2 t where r: "r = (b2, t)" by (cases r)
    from finite_pass[OF Some[unfolded r] less.prems] have dec: "work b2 < work b"
      and fin: "all_finite b2" by simp_all
    from less.hyps[OF dec fin, of "ts @ option_list t"] obtain n ts' b' where
      loop: "match_loop clock b2 (ts @ option_list t) = Some (ts', b')"
      and run: "match_run clock b2 (ts @ option_list t) n b' ts'" and n: "n \<le> work b2"
      by blast
    have "match_loop clock b ts = Some (ts', b')"
      using Some r loop by (simp add: match_loop_unfold)
    moreover have "match_run clock b ts (Suc n) b' ts'"
      by (rule match_run_prepend[OF run Some[unfolded r] refl])
    moreover have "Suc n \<le> work b" using n dec by simp
    ultimately show ?thesis by blast
  qed
qed

lemma matchOrders_finite_terminates:
  "all_finite b \<Longrightarrow>
     \<exists>n ts b'. matchOrders clock b = Some (ts, b') \<and> match_run clock b [] n b' ts \<and> n \<le> work b"
  unfolding matchOrders_def by (rule match_loop_finite_terminates)

end
